theory Spec2Isabelle
  imports Main "HOL-Library.Word"
begin

unbundle bit_operations_syntax

section \<open>Memory model\<close>

text \<open>
  The allocator of \<^verbatim>\<open>explicit.c\<close> works on raw bytes: block headers, free-list links
  and user data share one address space, and the same byte is a link field at one time
  and user data at another.  The model keeps that: memory is a total function from
  addresses to bytes, multi-byte fields are stored little-endian (the layout of the
  x86-64 target of the source), and every field access is a load or a store of four or
  eight bytes at an address computed as the C code computes it.

  Addresses and sizes are natural numbers.  A value stored in a 4-byte field is reduced
  modulo \<open>2^32\<close> and a value stored in an 8-byte field modulo \<open>2^64\<close> by the store
  itself; arithmetic in \<^verbatim>\<open>size_t\<close> is written with its wrap-around.  Pointer
  arithmetic is exact: C leaves a pointer that leaves its object undefined.
\<close>

type_synonym addr = nat
type_synonym byte = "8 word"
type_synonym memory = "addr \<Rightarrow> byte"

abbreviation NULL :: addr where "NULL \<equiv> 0"

definition store32 :: "memory \<Rightarrow> addr \<Rightarrow> nat \<Rightarrow> memory" where
  "store32 m a v =
     m(a := word_of_nat v, a + 1 := word_of_nat (v div 256),
       a + 2 := word_of_nat (v div 65536), a + 3 := word_of_nat (v div 16777216))"

definition load32 :: "memory \<Rightarrow> addr \<Rightarrow> nat" where
  "load32 m a =
     unat (m a) + 256 * unat (m (a + 1)) + 65536 * unat (m (a + 2))
       + 16777216 * unat (m (a + 3))"

definition store64 :: "memory \<Rightarrow> addr \<Rightarrow> nat \<Rightarrow> memory" where
  "store64 m a v = store32 (store32 m a v) (a + 4) (v div 4294967296)"

definition load64 :: "memory \<Rightarrow> addr \<Rightarrow> nat" where
  "load64 m a = load32 m a + 4294967296 * load32 m (a + 4)"

definition memcpy :: "memory \<Rightarrow> addr \<Rightarrow> addr \<Rightarrow> nat \<Rightarrow> memory" where
  "memcpy m dst src n = (\<lambda>x. if dst \<le> x \<and> x < dst + n then m (src + (x - dst)) else m x)"

text \<open>Arithmetic in \<^verbatim>\<open>size_t\<close> (64 bits, unsigned).\<close>

definition size_t_add :: "nat \<Rightarrow> nat \<Rightarrow> nat" where
  "size_t_add a b = (a + b) mod 2 ^ 64"

definition size_t_sub :: "nat \<Rightarrow> nat \<Rightarrow> nat" where
  "size_t_sub a b = (a mod 2 ^ 64 + 2 ^ 64 - b mod 2 ^ 64) mod 2 ^ 64"

section \<open>Constants, globals and structs\<close>

abbreviation HEADER_SIZE :: nat where "HEADER_SIZE \<equiv> 8"
abbreviation MIN_PAYLOAD_SIZE :: nat where "MIN_PAYLOAD_SIZE \<equiv> 16"
abbreviation MIN_BLOCK_SIZE :: nat where "MIN_BLOCK_SIZE \<equiv> 24"

text \<open>
  \<^verbatim>\<open>ALIGNMENT\<close> and \<^verbatim>\<open>MAX_REQUEST_SIZE\<close> come from \<^verbatim>\<open>allocator.h\<close>, which is not
  part of the sources at hand; they are parameters of the model.
\<close>

record config =
  ALIGNMENT :: nat
  MAX_REQUEST_SIZE :: nat

text \<open>The four file-scope variables, together with the memory they point into.\<close>

record heap =
  mem :: memory
  segment_start :: addr
  segment_end :: addr
  free_list_start :: addr
  segment_size :: nat

text \<open>
  \<^verbatim>\<open>struct Header { unsigned int payload; int allocated; }\<close> at the start of a block.
\<close>

definition hdr_payload :: "memory \<Rightarrow> addr \<Rightarrow> nat" where
  "hdr_payload m block = load32 m block"

definition hdr_allocated :: "memory \<Rightarrow> addr \<Rightarrow> nat" where
  "hdr_allocated m block = load32 m (block + 4)"

definition set_payload :: "memory \<Rightarrow> addr \<Rightarrow> nat \<Rightarrow> memory" where
  "set_payload m block v = store32 m block v"

definition set_allocated :: "memory \<Rightarrow> addr \<Rightarrow> nat \<Rightarrow> memory" where
  "set_allocated m block v = store32 m (block + 4) v"

section \<open>Utilities\<close>

text \<open>\<^verbatim>\<open>(size + (mult - 1)) & ~(mult - 1)\<close> on \<^verbatim>\<open>size_t\<close>.\<close>

definition align :: "nat \<Rightarrow> nat \<Rightarrow> nat" where
  "align sz mult =
     unat (((word_of_nat sz :: 64 word) + (word_of_nat mult - 1)) AND NOT (word_of_nat mult - 1))"

definition get_payload_ptr :: "addr \<Rightarrow> addr" where
  "get_payload_ptr block = block + HEADER_SIZE"

text \<open>
  \<^verbatim>\<open>struct Pointers { void *previous; void *next; }\<close>, read and written through
  \<^verbatim>\<open>(Pointers *)get_payload_ptr(block)\<close>.
\<close>

definition get_previous :: "memory \<Rightarrow> addr \<Rightarrow> addr" where
  "get_previous m block = load64 m (get_payload_ptr block)"

definition get_next :: "memory \<Rightarrow> addr \<Rightarrow> addr" where
  "get_next m block = load64 m (get_payload_ptr block + 8)"

definition set_previous :: "memory \<Rightarrow> addr \<Rightarrow> addr \<Rightarrow> memory" where
  "set_previous m block v = store64 m (get_payload_ptr block) v"

definition set_next :: "memory \<Rightarrow> addr \<Rightarrow> addr \<Rightarrow> memory" where
  "set_next m block v = store64 m (get_payload_ptr block + 8) v"

section \<open>Free block list functions\<close>

definition add_block :: "heap \<Rightarrow> addr \<Rightarrow> heap" where
  "add_block s block =
     (let m1 =
            (if free_list_start s = NULL then
               set_next (set_previous (mem s) block NULL) block NULL
             else
               set_previous
                 (set_next (set_previous (mem s) (free_list_start s) block)
                    block (free_list_start s))
                 block NULL)
      in s\<lparr>mem := set_allocated m1 block 0, free_list_start := block\<rparr>)"

definition remove_block :: "heap \<Rightarrow> addr \<Rightarrow> heap" where
  "remove_block s block =
     (let previous = get_previous (mem s) block;
          next = get_next (mem s) block;
          s1 =
            (if previous = NULL \<and> next = NULL then s\<lparr>free_list_start := NULL\<rparr>
             else if previous = NULL \<and> next \<noteq> NULL then
               s\<lparr>mem := set_previous (mem s) next NULL, free_list_start := next\<rparr>
             else if previous \<noteq> NULL \<and> next = NULL then
               s\<lparr>mem := set_next (mem s) previous NULL\<rparr>
             else
               s\<lparr>mem := set_previous (set_next (mem s) previous next) next previous\<rparr>)
      in s1\<lparr>mem := set_allocated (mem s1) block 1\<rparr>)"

section \<open>Helpers\<close>

definition partition_block :: "heap \<Rightarrow> addr \<Rightarrow> nat \<Rightarrow> nat \<Rightarrow> heap" where
  "partition_block s block payload_space payload =
     (let next_block = block + payload + HEADER_SIZE;
          next_payload = size_t_sub (size_t_sub payload_space payload) HEADER_SIZE mod 2 ^ 32;
          s1 = s\<lparr>mem := set_allocated (set_payload (mem s) next_block next_payload) next_block 0\<rparr>;
          s2 = add_block s1 next_block
      in s2\<lparr>mem := set_payload (mem s2) block payload\<rparr>)"

text \<open>
  The scan of \<^verbatim>\<open>find_fit\<close> follows next-links until it meets \<^verbatim>\<open>NULL\<close>; on a cyclic
  list it does not return, which is the value \<open>None\<close> here.
\<close>

partial_function (option) find_fit_loop :: "heap \<Rightarrow> nat \<Rightarrow> addr \<Rightarrow> (addr \<times> heap) option" where
  "find_fit_loop s aligned_requested_size curr_block =
     (if curr_block = NULL then Some (NULL, s)
      else if hdr_payload (mem s) curr_block \<ge> aligned_requested_size then
        Some (curr_block,
          remove_block
            (if hdr_payload (mem s) curr_block \<ge> size_t_add aligned_requested_size MIN_BLOCK_SIZE
             then partition_block s curr_block (hdr_payload (mem s) curr_block)
                    aligned_requested_size
             else s)
            curr_block)
      else find_fit_loop s aligned_requested_size (get_next (mem s) curr_block))"

declare find_fit_loop.simps [code]

definition find_fit :: "heap \<Rightarrow> nat \<Rightarrow> (addr \<times> heap) option" where
  "find_fit s aligned_requested_size =
     find_fit_loop s aligned_requested_size (free_list_start s)"

function coalesce_loop :: "heap \<Rightarrow> addr \<Rightarrow> addr \<Rightarrow> heap" where
  "coalesce_loop s block curr_block =
     (if curr_block < segment_end s \<and> hdr_allocated (mem s) curr_block = 0 then
        let s1 = s\<lparr>mem := set_payload (mem s) block
                     (hdr_payload (mem s) block + (hdr_payload (mem s) curr_block + HEADER_SIZE))\<rparr>;
            s2 = remove_block s1 curr_block
        in coalesce_loop s2 block (curr_block + hdr_payload (mem s2) curr_block + HEADER_SIZE)
      else s)"
  by pat_completeness auto
termination
  by (relation "measure (\<lambda>(s, block, curr_block). segment_end s - curr_block)")
    (auto simp: remove_block_def Let_def)

definition coalesce_right :: "heap \<Rightarrow> addr \<Rightarrow> heap" where
  "coalesce_right s block =
     (if block = NULL then s
      else coalesce_loop s block (block + hdr_payload (mem s) block + HEADER_SIZE))"

section \<open>Main heap functions\<close>

definition myinit :: "heap \<Rightarrow> addr \<Rightarrow> nat \<Rightarrow> bool \<times> heap" where
  "myinit s heap_start heap_size =
     (if heap_size \<le> HEADER_SIZE then (False, s)
      else
        let s1 = s\<lparr>segment_start := heap_start, segment_end := heap_start + heap_size,
                   segment_size := heap_size, free_list_start := heap_start\<rparr>;
            payload = size_t_sub heap_size HEADER_SIZE mod 2 ^ 32;
            m1 = set_allocated (set_payload (mem s1) (segment_start s1) payload)
                   (segment_start s1) 0;
            payload_ptr = get_payload_ptr (segment_start s1);
            m2 = store64 (store64 m1 payload_ptr NULL) (payload_ptr + 8) NULL
        in (True, s1\<lparr>mem := m2\<rparr>))"

definition mymalloc :: "config \<Rightarrow> heap \<Rightarrow> nat \<Rightarrow> (addr \<times> heap) option" where
  "mymalloc cfg s requested_size =
     (if requested_size > MAX_REQUEST_SIZE cfg \<or> requested_size = 0 then Some (NULL, s)
      else
        let aligned_requested_size = align requested_size (ALIGNMENT cfg);
            aligned_requested_size =
              (if aligned_requested_size < MIN_PAYLOAD_SIZE then MIN_PAYLOAD_SIZE
               else aligned_requested_size)
        in case find_fit s aligned_requested_size of
             None \<Rightarrow> None
           | Some (block, s') \<Rightarrow>
               if block \<noteq> NULL then Some (get_payload_ptr block, s') else Some (NULL, s'))"

definition myfree :: "heap \<Rightarrow> addr \<Rightarrow> heap" where
  "myfree s ptr =
     (if ptr \<noteq> NULL then
        let block_ptr = ptr - HEADER_SIZE;
            s1 = coalesce_right s block_ptr;
            s2 = add_block s1 block_ptr
        in s2\<lparr>mem := set_allocated (mem s2) block_ptr 0\<rparr>
      else s)"

definition myrealloc :: "config \<Rightarrow> heap \<Rightarrow> addr \<Rightarrow> nat \<Rightarrow> (addr \<times> heap) option" where
  "myrealloc cfg s old_ptr new_size =
     (if old_ptr = NULL \<or> new_size = 0 then mymalloc cfg s new_size
      else
        let old_block_ptr = old_ptr - HEADER_SIZE;
            old_payload_size = hdr_payload (mem s) old_block_ptr;
            new_aligned_size = align new_size (ALIGNMENT cfg);
            new_aligned_size =
              (if new_aligned_size < MIN_PAYLOAD_SIZE then MIN_PAYLOAD_SIZE
               else new_aligned_size);
            min_split = size_t_add new_aligned_size MIN_BLOCK_SIZE
        in
          if old_payload_size = new_aligned_size then Some (old_ptr, s)
          else if old_payload_size > new_aligned_size \<and> old_payload_size < min_split then
            Some (old_ptr, s)
          else if old_payload_size > new_aligned_size \<and> old_payload_size \<ge> min_split then
            Some (old_ptr, partition_block s old_block_ptr old_payload_size new_aligned_size)
          else if old_payload_size < new_aligned_size then
            let s1 = coalesce_right s old_block_ptr;
                new_payload_size = hdr_payload (mem s1) old_block_ptr
            in
              if new_payload_size \<ge> new_aligned_size then
                Some (old_ptr,
                  if new_payload_size \<ge> min_split then
                    partition_block s1 old_block_ptr (hdr_payload (mem s1) old_block_ptr)
                      new_aligned_size
                  else s1)
              else
                (case mymalloc cfg s1 new_size of
                   None \<Rightarrow> None
                 | Some (realloc_block, s2) \<Rightarrow>
                     if realloc_block \<noteq> NULL then
                       Some (realloc_block,
                         myfree (s2\<lparr>mem := memcpy (mem s2) realloc_block old_ptr old_payload_size\<rparr>)
                           old_ptr)
                     else Some (NULL, s2))
          else Some (NULL, s))"

section \<open>Notions of the specification\<close>

text \<open>
  The size that \<^verbatim>\<open>mymalloc\<close> and \<^verbatim>\<open>myrealloc\<close> compute from a request: rounded by
  \<^verbatim>\<open>align\<close> and raised to \<^verbatim>\<open>MIN_PAYLOAD_SIZE\<close>.
\<close>

definition aligned_size :: "config \<Rightarrow> nat \<Rightarrow> nat" where
  "aligned_size cfg n =
     (if align n (ALIGNMENT cfg) < MIN_PAYLOAD_SIZE then MIN_PAYLOAD_SIZE
      else align n (ALIGNMENT cfg))"

text \<open>
  The walk over the segment in physical order, as the loops of \<^verbatim>\<open>validate_heap\<close> and
  \<^verbatim>\<open>dump_heap\<close> do it: from \<^verbatim>\<open>segment_start\<close>, advancing by the payload size read
  from the header plus the header size, while the address is below \<^verbatim>\<open>segment_end\<close>.
\<close>

function heap_walk :: "memory \<Rightarrow> addr \<Rightarrow> addr \<Rightarrow> addr list" where
  "heap_walk m a e =
     (if a < e then a # heap_walk m (a + hdr_payload m a + HEADER_SIZE) e else [])"
  by pat_completeness auto
termination
  by (relation "measure (\<lambda>(m, a, e). e - a)") auto

function walk_end :: "memory \<Rightarrow> addr \<Rightarrow> addr \<Rightarrow> addr" where
  "walk_end m a e = (if a < e then walk_end m (a + hdr_payload m a + HEADER_SIZE) e else a)"
  by pat_completeness auto
termination
  by (relation "measure (\<lambda>(m, a, e). e - a)") auto

declare heap_walk.simps [simp del] walk_end.simps [simp del]

definition heap_blocks :: "heap \<Rightarrow> addr list" where
  "heap_blocks s = heap_walk (mem s) (segment_start s) (segment_end s)"

text \<open>The bytes of a block: its header and its payload.\<close>

definition block_bytes :: "heap \<Rightarrow> addr \<Rightarrow> addr set" where
  "block_bytes s b = {b ..< b + HEADER_SIZE + hdr_payload (mem s) b}"

text \<open>
  A payload reference the caller may pass to \<^verbatim>\<open>myfree\<close> and \<^verbatim>\<open>myrealloc\<close>: the payload
  of a block of the heap whose header marks it allocated.
\<close>

definition valid_ptr :: "heap \<Rightarrow> addr \<Rightarrow> bool" where
  "valid_ptr s p =
     (HEADER_SIZE \<le> p \<and> p - HEADER_SIZE \<in> set (heap_blocks s) \<and>
      hdr_allocated (mem s) (p - HEADER_SIZE) \<noteq> 0)"

text \<open>The blocks met from the head \<open>h\<close> by following next-links until \<^verbatim>\<open>NULL\<close>.\<close>

fun is_free_list :: "memory \<Rightarrow> addr \<Rightarrow> addr list \<Rightarrow> bool" where
  "is_free_list m h [] = (h = NULL)"
| "is_free_list m h (b # bs) = (h = b \<and> b \<noteq> NULL \<and> is_free_list m (get_next m b) bs)"

text \<open>
  The region handed to \<^verbatim>\<open>myinit\<close> is real memory: it does not start at the null address
  and it ends within the 64-bit address space.
\<close>

definition valid_region :: "addr \<Rightarrow> nat \<Rightarrow> bool" where
  "valid_region heap_start heap_size = (heap_start \<noteq> NULL \<and> heap_start + heap_size \<le> 2 ^ 64)"

text \<open>
  The heap states a caller can produce from a state \<open>s0\<close>: by \<^verbatim>\<open>mymalloc\<close>, by
  \<^verbatim>\<open>myfree\<close> and \<^verbatim>\<open>myrealloc\<close> on \<^verbatim>\<open>NULL\<close> or on a payload reference that is
  allocated at that moment, and by writing a byte into the payload of an allocated block.
\<close>

inductive reachable :: "config \<Rightarrow> heap \<Rightarrow> heap \<Rightarrow> bool" for cfg :: config and s0 :: heap where
  r_init: "reachable cfg s0 s0"
| r_malloc: "reachable cfg s0 s \<Longrightarrow> mymalloc cfg s n = Some (p, s') \<Longrightarrow> reachable cfg s0 s'"
| r_free: "reachable cfg s0 s \<Longrightarrow> p = NULL \<or> valid_ptr s p \<Longrightarrow> reachable cfg s0 (myfree s p)"
| r_realloc: "reachable cfg s0 s \<Longrightarrow> p = NULL \<or> valid_ptr s p \<Longrightarrow>
     myrealloc cfg s p n = Some (q, s') \<Longrightarrow> reachable cfg s0 s'"
| r_write: "reachable cfg s0 s \<Longrightarrow> valid_ptr s p \<Longrightarrow> i < hdr_payload (mem s) (p - HEADER_SIZE) \<Longrightarrow>
     reachable cfg s0 (s\<lparr>mem := (mem s)(p + i := v)\<rparr>)"

text \<open>
  The states the claims are about: those a caller reaches from a successful \<^verbatim>\<open>myinit\<close> on a
  region whose payload size fits the 32-bit field of the header.
\<close>

definition heap_state :: "config \<Rightarrow> heap \<Rightarrow> bool" where
  "heap_state cfg s =
     (\<exists>st a n s0. valid_region a n \<and> n < 2 ^ 32 + 8 \<and> myinit st a n = (True, s0) \<and>
        reachable cfg s0 s)"

section \<open>Notions of the proofs\<close>

text \<open>
  Two blocks whose starts are at least \<^verbatim>\<open>MIN_BLOCK_SIZE\<close> apart: the header and the links of
  the one do not overlap those of the other.
\<close>

definition far :: "addr \<Rightarrow> addr \<Rightarrow> bool" where
  "far a b = (a + 24 \<le> b \<or> b + 24 \<le> a)"

text \<open>
  A sequence of blocks, each given by its start and its payload size, that fills the addresses
  from \<open>a\<close> up to \<open>e\<close> without gap or overlap.
\<close>

fun contig :: "addr \<Rightarrow> addr \<Rightarrow> (addr \<times> nat) list \<Rightarrow> bool" where
  "contig a e [] = (a = e)"
| "contig a e ((b, p) # bl) = (b = a \<and> contig (a + HEADER_SIZE + p) e bl)"

text \<open>
  A stretch of the doubly linked list: the nodes from \<open>h\<close> in next-link order up to the link
  \<open>n\<close>, the previous-link of the first node being \<open>p\<close>.
\<close>

fun seg :: "memory \<Rightarrow> addr \<Rightarrow> addr \<Rightarrow> addr list \<Rightarrow> addr \<Rightarrow> bool" where
  "seg m p h [] n = (h = n)"
| "seg m p h (b # bs) n =
     (h = b \<and> b \<noteq> NULL \<and> get_previous m b = p \<and> seg m b (get_next m b) bs n)"

definition sep :: "addr set \<Rightarrow> bool" where
  "sep B = (\<forall>a\<in>B. \<forall>b\<in>B. a \<noteq> b \<longrightarrow> far a b)"

definition wf_blocks :: "addr \<Rightarrow> addr \<Rightarrow> (addr \<times> nat) list \<Rightarrow> bool" where
  "wf_blocks a e bl = (contig a e bl \<and> (\<forall>(b, p)\<in>set bl. 16 \<le> p))"

text \<open>
  The blocks of a heap: they fill the segment, every payload has room for the two links, the
  headers record the payload sizes, and the segment lies in the address space and is short
  enough for the 32-bit payload field.
\<close>

definition layout :: "heap \<Rightarrow> (addr \<times> nat) list \<Rightarrow> bool" where
  "layout s bl =
     (0 < segment_start s \<and> segment_end s \<le> 2 ^ 64 \<and>
      segment_end s < segment_start s + 2 ^ 32 + 8 \<and>
      wf_blocks (segment_start s) (segment_end s) bl \<and>
      (\<forall>(b, p)\<in>set bl. hdr_payload (mem s) b = p))"

definition flist :: "heap \<Rightarrow> addr list \<Rightarrow> bool" where
  "flist s fl = (seg (mem s) NULL (free_list_start s) fl NULL \<and> distinct fl)"

text \<open>
  The invariant of a heap with block sequence \<open>bl\<close> and free list \<open>fl\<close>: the list is a
  well-formed doubly linked list of blocks of the heap without repetition, and a block is in
  it exactly when its header marks it unallocated.
\<close>

definition big :: "heap \<Rightarrow> (addr \<times> nat) list \<Rightarrow> addr list \<Rightarrow> bool" where
  "big s bl fl =
     (layout s bl \<and> flist s fl \<and> set fl \<subseteq> fst ` set bl \<and>
      (\<forall>(b, p)\<in>set bl. (hdr_allocated (mem s) b = 0) = (b \<in> set fl)))"

text \<open>
  What \<^verbatim>\<open>coalesce_right\<close> does to a block of payload size \<open>p\<close> followed by the blocks
  \<open>ys\<close>: the new payload size, the blocks left after it, and the free list left.
\<close>

fun absorb :: "addr list \<Rightarrow> nat \<Rightarrow> (addr \<times> nat) list \<Rightarrow> nat \<times> (addr \<times> nat) list \<times> addr list" where
  "absorb fl p [] = (p, [], fl)"
| "absorb fl p ((c, q) # ys) =
     (if c \<in> set fl then absorb (remove1 c fl) (p + q + 8) ys else (p, (c, q) # ys, fl))"

definition aligned_blocks :: "nat \<Rightarrow> (addr \<times> nat) list \<Rightarrow> bool" where
  "aligned_blocks A bl = (\<forall>(b, p)\<in>set bl. A dvd p)"

text \<open>A segment too small for any request: one free block that no request fits.\<close>

definition small :: "heap \<Rightarrow> bool" where
  "small s =
     (0 < segment_start s \<and> hdr_payload (mem s) (segment_start s) < 16 \<and>
      segment_end s = segment_start s + 8 + hdr_payload (mem s) (segment_start s) \<and>
      hdr_allocated (mem s) (segment_start s) = 0 \<and>
      free_list_start s = segment_start s \<and>
      get_next (mem s) (segment_start s) = NULL)"

text \<open>
  The invariant of the operations, for the alignment \<open>A\<close>; \<open>sm\<close> tells whether the segment
  may be a small one.
\<close>

definition heap_inv :: "nat \<Rightarrow> bool \<Rightarrow> heap \<Rightarrow> bool" where
  "heap_inv A sm s = ((\<exists>bl fl. big s bl fl \<and> aligned_blocks A bl) \<or> (sm \<and> small s))"

declare coalesce_loop.simps [simp del]

section \<open>Example heaps\<close>

definition mem0 :: memory where "mem0 = (\<lambda>_. 0)"

definition heap0 :: heap where
  "heap0 = \<lparr>mem = mem0, segment_start = 0, segment_end = 0, free_list_start = 0,
             segment_size = 0\<rparr>"

definition cfg8 :: config where "cfg8 = \<lparr>ALIGNMENT = 8, MAX_REQUEST_SIZE = 1073741824\<rparr>"

text \<open>A segment of 1008 bytes at address 4096: one free block of payload 1000.\<close>

definition ex1000 :: heap where "ex1000 = snd (myinit heap0 4096 1008)"

text \<open>
  A segment of 72 bytes at address 4096, and three allocations of 16 bytes in it: the blocks
  at 4096, 4120 and 4144, each of payload 16.
\<close>

definition ex72 :: heap where "ex72 = snd (myinit heap0 4096 72)"

definition ex_a :: heap where "ex_a = snd (the (mymalloc cfg8 ex72 16))"

definition ex_ab :: heap where "ex_ab = snd (the (mymalloc cfg8 ex_a 16))"

definition ex_abc :: heap where "ex_abc = snd (the (mymalloc cfg8 ex_ab 16))"

text \<open>An allocation of 64 bytes in the segment of 72 bytes: one allocated block of payload 64.\<close>

definition ex64 :: heap where "ex64 = snd (the (mymalloc cfg8 ex72 64))"

text \<open>Segments of 20 and of 100 bytes at address 4096.\<close>

definition ex20 :: heap where "ex20 = snd (myinit heap0 4096 20)"

definition ex100 :: heap where "ex100 = snd (myinit heap0 4096 100)"

text \<open>
  A segment of \<open>2^32 + 16\<close> bytes at address 4096, in memory whose bytes are all 255 before
  the initialisation.
\<close>

definition memff :: memory where "memff = (\<lambda>_. 255)"

definition heapff :: heap where
  "heapff = \<lparr>mem = memff, segment_start = 0, segment_end = 0, free_list_start = 0,
              segment_size = 0\<rparr>"

definition exhuge :: heap where "exhuge = snd (myinit heapff 4096 4294967312)"

text \<open>The three blocks of the segment of 72 bytes with the middle one released.\<close>

definition ex_ac :: heap where "ex_ac = myfree ex_abc 4128"

text \<open>The heap that the failed resize of the first block leaves.\<close>

definition ex_fail :: heap where "ex_fail = coalesce_right ex_ac 4096"

text \<open>The three blocks of the segment of 72 bytes with the last one released.\<close>

definition ex_abf :: heap where "ex_abf = myfree ex_abc 4152"

section \<open>Loads and stores\<close>

lemma store32_outside: "x < a \<or> a + 4 \<le> x \<Longrightarrow> store32 m a v x = m x"
  by (auto simp: store32_def)

lemma store64_outside: "x < a \<or> a + 8 \<le> x \<Longrightarrow> store64 m a v x = m x"
  by (auto simp: store64_def store32_outside)

lemma load32_cong: "(\<And>x. a \<le> x \<Longrightarrow> x < a + 4 \<Longrightarrow> m' x = m x) \<Longrightarrow> load32 m' a = load32 m a"
  by (simp add: load32_def)

lemma load64_cong: "(\<And>x. a \<le> x \<Longrightarrow> x < a + 8 \<Longrightarrow> m' x = m x) \<Longrightarrow> load64 m' a = load64 m a"
  by (simp add: load64_def load32_def)

lemma byte_split: "(v::nat) mod 256 + 256 * (v div 256 mod n) = v mod (256 * n)"
  by (simp add: mod_mult2_eq)

lemma load32_store32_same: "load32 (store32 m a v) a = v mod 2 ^ 32"
proof -
  have "load32 (store32 m a v) a =
    v mod 256 + 256 * (v div 256 mod 256) + 65536 * (v div 65536 mod 256) + 16777216 * (v div 16777216 mod 256)"
    by (simp add: load32_def store32_def unat_of_nat)
  also have "\<dots> = v mod 2 ^ 32"
    using mod_mult2_eq[of v 256 256] mod_mult2_eq[of v 65536 256] mod_mult2_eq[of v 16777216 256]
    by simp
  finally show ?thesis .
qed

lemma load32_bound: "load32 m a < 2 ^ 32"
proof -
  have "unat (m a) < 256" "unat (m (a+1)) < 256" "unat (m (a+2)) < 256" "unat (m (a+3)) < 256"
    using unsigned_less[of "m a"] unsigned_less[of "m (a+1)"] unsigned_less[of "m (a+2)"]
      unsigned_less[of "m (a+3)"] by simp_all
  then show ?thesis by (simp add: load32_def)
qed

lemma load64_store64_same: "load64 (store64 m a v) a = v mod 2 ^ 64"
proof -
  have 1: "load32 (store64 m a v) a = v mod 2 ^ 32"
    unfolding store64_def
    by (subst load32_cong[where m = "store32 m a v"]) (auto simp: store32_outside load32_store32_same)
  have 2: "load32 (store64 m a v) (a + 4) = v div 2 ^ 32 mod 2 ^ 32"
    unfolding store64_def by (simp add: load32_store32_same)
  show ?thesis unfolding load64_def 1 2
    using mod_mult2_eq[of v 4294967296 4294967296] by simp
qed

lemma load64_bound: "load64 m a < 2 ^ 64"
  using load32_bound[of m a] load32_bound[of m "a + 4"] by (simp add: load64_def)

section \<open>Fields of headers and links\<close>

lemma load32_store32_disj: "a + 4 \<le> b \<or> b + 4 \<le> a \<Longrightarrow> load32 (store32 m a v) b = load32 m b"
  by (rule load32_cong) (auto simp: store32_outside)

lemma load32_store64_disj: "a + 8 \<le> b \<or> b + 4 \<le> a \<Longrightarrow> load32 (store64 m a v) b = load32 m b"
  by (rule load32_cong) (auto simp: store64_outside)

lemma load64_store32_disj: "a + 4 \<le> b \<or> b + 8 \<le> a \<Longrightarrow> load64 (store32 m a v) b = load64 m b"
  by (rule load64_cong) (auto simp: store32_outside)

lemma load64_store64_disj: "a + 8 \<le> b \<or> b + 8 \<le> a \<Longrightarrow> load64 (store64 m a v) b = load64 m b"
  by (rule load64_cong) (auto simp: store64_outside)

lemmas field_defs = hdr_payload_def hdr_allocated_def set_payload_def set_allocated_def
  get_previous_def get_next_def set_previous_def set_next_def get_payload_ptr_def

lemma get_set_same [simp]:
  "hdr_payload (set_payload m b v) b = v mod 2 ^ 32"
  "hdr_payload (set_allocated m b v) b = hdr_payload m b"
  "hdr_payload (set_previous m b v) b = hdr_payload m b"
  "hdr_payload (set_next m b v) b = hdr_payload m b"
  "hdr_allocated (set_payload m b v) b = hdr_allocated m b"
  "hdr_allocated (set_allocated m b v) b = v mod 2 ^ 32"
  "hdr_allocated (set_previous m b v) b = hdr_allocated m b"
  "hdr_allocated (set_next m b v) b = hdr_allocated m b"
  "get_previous (set_payload m b v) b = get_previous m b"
  "get_previous (set_allocated m b v) b = get_previous m b"
  "get_previous (set_previous m b v) b = v mod 2 ^ 64"
  "get_previous (set_next m b v) b = get_previous m b"
  "get_next (set_payload m b v) b = get_next m b"
  "get_next (set_allocated m b v) b = get_next m b"
  "get_next (set_previous m b v) b = get_next m b"
  "get_next (set_next m b v) b = v mod 2 ^ 64"
  by (simp_all add: field_defs load32_store32_same load64_store64_same
      load32_store32_disj load32_store64_disj load64_store32_disj load64_store64_disj)

lemma get_set_far [simp]:
  assumes "far a b \<or> far b a"
  shows
  "hdr_payload (set_payload m a v) b = hdr_payload m b"
  "hdr_payload (set_allocated m a v) b = hdr_payload m b"
  "hdr_payload (set_previous m a v) b = hdr_payload m b"
  "hdr_payload (set_next m a v) b = hdr_payload m b"
  "hdr_allocated (set_payload m a v) b = hdr_allocated m b"
  "hdr_allocated (set_allocated m a v) b = hdr_allocated m b"
  "hdr_allocated (set_previous m a v) b = hdr_allocated m b"
  "hdr_allocated (set_next m a v) b = hdr_allocated m b"
  "get_previous (set_payload m a v) b = get_previous m b"
  "get_previous (set_allocated m a v) b = get_previous m b"
  "get_previous (set_previous m a v) b = get_previous m b"
  "get_previous (set_next m a v) b = get_previous m b"
  "get_next (set_payload m a v) b = get_next m b"
  "get_next (set_allocated m a v) b = get_next m b"
  "get_next (set_previous m a v) b = get_next m b"
  "get_next (set_next m a v) b = get_next m b"
  using assms
  by (auto simp: far_def field_defs 
      load32_store32_disj load32_store64_disj load64_store32_disj load64_store64_disj)

text \<open>Bytes outside a field are not touched by a store to it.\<close>

lemma set_outside:
  "x < b \<or> b + 4 \<le> x \<Longrightarrow> set_payload m b v x = m x"
  "x < b + 4 \<or> b + 8 \<le> x \<Longrightarrow> set_allocated m b v x = m x"
  "x < b + 8 \<or> b + 16 \<le> x \<Longrightarrow> set_previous m b v x = m x"
  "x < b + 16 \<or> b + 24 \<le> x \<Longrightarrow> set_next m b v x = m x"
  by (auto simp: field_defs store32_outside store64_outside)

lemma get_cong:
  "(\<And>x. b \<le> x \<Longrightarrow> x < b + 4 \<Longrightarrow> m' x = m x) \<Longrightarrow> hdr_payload m' b = hdr_payload m b"
  "(\<And>x. b + 4 \<le> x \<Longrightarrow> x < b + 8 \<Longrightarrow> m' x = m x) \<Longrightarrow> hdr_allocated m' b = hdr_allocated m b"
  "(\<And>x. b + 8 \<le> x \<Longrightarrow> x < b + 16 \<Longrightarrow> m' x = m x) \<Longrightarrow> get_previous m' b = get_previous m b"
  "(\<And>x. b + 16 \<le> x \<Longrightarrow> x < b + 24 \<Longrightarrow> m' x = m x) \<Longrightarrow> get_next m' b = get_next m b"
  unfolding field_defs
  by (rule load32_cong load64_cong; simp)+

lemma field_bounds [simp]:
  "hdr_payload m b < 2 ^ 32" "hdr_allocated m b < 2 ^ 32"
  "get_previous m b < 2 ^ 64" "get_next m b < 2 ^ 64"
  using load32_bound load64_bound by (simp_all add: field_defs)

section \<open>Block sequences and link chains\<close>

lemma contig_append:
  "contig a e (xs @ ys) = (\<exists>mid. contig a mid xs \<and> contig mid e ys)"
  by (induction xs arbitrary: a) auto

lemma contig_le: "contig a e bl \<Longrightarrow> a \<le> e"
  by (induction a e bl rule: contig.induct) auto

lemma contig_split:
  "contig a e (xs @ (b, p) # ys) = (contig a b xs \<and> contig (b + 8 + p) e ys)"
  by (auto simp: contig_append)

lemma contig_mem:
  assumes "contig a e bl" "(b, p) \<in> set bl"
  shows "a \<le> b \<and> b + 8 + p \<le> e"
proof -
  from assms(2) obtain xs ys where "bl = xs @ (b, p) # ys" by (auto dest: split_list)
  with assms(1) show ?thesis by (auto simp: contig_split dest: contig_le)
qed

lemma contig_before:
  "contig a e (xs @ ys) \<Longrightarrow> (c, q) \<in> set xs \<Longrightarrow> (b, p) \<in> set ys \<Longrightarrow> c + 8 + q \<le> b"
  by (auto simp: contig_append dest!: contig_mem)

lemma contig_sep:
  assumes "contig a e bl" "(b, p) \<in> set bl" "(c, q) \<in> set bl" "b \<noteq> c"
  shows "b + 8 + p \<le> c \<or> c + 8 + q \<le> b"
proof -
  from assms(2) obtain xs ys where bl: "bl = xs @ (b, p) # ys" by (auto dest: split_list)
  with assms(3,4) consider "(c, q) \<in> set xs" | "(c, q) \<in> set ys" by auto
  then show ?thesis
  proof cases
    case 1
    with assms(1) bl contig_before[of a e xs "(b, p) # ys" c q b p] show ?thesis by simp
  next
    case 2
    with assms(1) bl contig_before[of a e "xs @ [(b, p)]" ys b p c q] show ?thesis by simp
  qed
qed

lemma contig_fun:
  assumes "contig a e bl" "(b, p) \<in> set bl" "(b, q) \<in> set bl"
  shows "p = q"
proof -
  from assms(2) obtain xs ys where bl: "bl = xs @ (b, p) # ys" by (auto dest: split_list)
  with assms(3) consider "p = q" | "(b, q) \<in> set xs" | "(b, q) \<in> set ys" by auto
  then show ?thesis
  proof cases
    case 1 then show ?thesis .
  next
    case 2
    with assms(1) bl contig_before[of a e xs "(b, p) # ys" b q b p] show ?thesis by simp
  next
    case 3
    with assms(1) bl contig_before[of a e "xs @ [(b, p)]" ys b p b q] show ?thesis by simp
  qed
qed

lemma seg_append:
  "seg m p h (xs @ ys) n =
     (seg m p h xs (case ys of [] \<Rightarrow> n | y # _ \<Rightarrow> y) \<and>
      seg m (last (p # xs)) (case ys of [] \<Rightarrow> n | y # _ \<Rightarrow> y) ys n)"
  by (induction xs arbitrary: p h) (auto split: list.splits)

lemma seg_cong:
  "(\<And>b. b \<in> set fl \<Longrightarrow> get_previous m' b = get_previous m b \<and> get_next m' b = get_next m b)
    \<Longrightarrow> seg m' p h fl n = seg m p h fl n"
  by (induction fl arbitrary: p h) auto

lemma seg_nonnull: "seg m p h fl n \<Longrightarrow> NULL \<notin> set fl"
  by (induction fl arbitrary: p h) auto

lemma seg_head: "seg m p h fl n \<Longrightarrow> h = (case fl of [] \<Rightarrow> n | y # _ \<Rightarrow> y)"
  by (cases fl) auto

text \<open>Re-linking the last node of a segment, and the first.\<close>

lemma seg_relink_last:
  assumes "seg m p h (xs @ [x]) n" "x \<notin> set xs"
    and "\<And>b. b \<in> set xs \<Longrightarrow> get_previous m' b = get_previous m b \<and> get_next m' b = get_next m b"
    and "get_previous m' x = get_previous m x" "get_next m' x = n'"
  shows "seg m' p h (xs @ [x]) n'"
  using assms by (simp add: seg_append seg_cong[of xs m' m])

lemma seg_relink_first:
  assumes "seg m p y (y # ys) n" 
    and "\<And>b. b \<in> set ys \<Longrightarrow> get_previous m' b = get_previous m b \<and> get_next m' b = get_next m b"
    and "get_previous m' y = p'" "get_next m' y = get_next m y"
  shows "seg m' p' y (y # ys) n"
  using assms by (simp add: seg_cong[of ys m' m])

section \<open>Removing a block from the free list\<close>

lemma sepD: "sep B \<Longrightarrow> a \<in> B \<Longrightarrow> b \<in> B \<Longrightarrow> a \<noteq> b \<Longrightarrow> far a b"
  by (simp add: sep_def)

lemma far_sym: "far a b = far b a"
  by (auto simp: far_def)

lemma seg_links_mem:
  "seg m p h fl n \<Longrightarrow> c \<in> set fl \<Longrightarrow>
     (get_previous m c = p \<or> get_previous m c \<in> set fl) \<and>
     (get_next m c = n \<or> get_next m c \<in> set fl)"
proof (induction fl arbitrary: p h)
  case Nil
  then show ?case by simp
next
  case (Cons b bs)
  show ?case
  proof (cases "c = b")
    case True
    with Cons.prems show ?thesis by (cases bs) auto
  next
    case False
    with Cons.prems have "c \<in> set bs" "seg m b (get_next m b) bs n" by auto
    from Cons.IH[OF this(2) this(1)] show ?thesis by auto
  qed
qed

lemma remove_block_globals [simp]:
  "segment_start (remove_block s c) = segment_start s"
  "segment_end (remove_block s c) = segment_end s"
  "segment_size (remove_block s c) = segment_size s"
  by (simp_all add: remove_block_def Let_def)

lemma remove_block_outside:
  assumes "seg (mem s) NULL (free_list_start s) fl NULL" "c \<in> set fl"
    and "x < c + 4 \<or> c + 8 \<le> x" and "\<And>y. y \<in> set fl \<Longrightarrow> x < y + 8 \<or> y + 24 \<le> x"
  shows "mem (remove_block s c) x = mem s x"
proof -
  from seg_links_mem[OF assms(1,2)]
  have p: "get_previous (mem s) c = NULL \<or> get_previous (mem s) c \<in> set fl"
    and n: "get_next (mem s) c = NULL \<or> get_next (mem s) c \<in> set fl" by auto
  have "get_previous (mem s) c \<noteq> NULL \<Longrightarrow>
          x < get_previous (mem s) c + 8 \<or> get_previous (mem s) c + 24 \<le> x"
    using p assms(4) by auto
  moreover have "get_next (mem s) c \<noteq> NULL \<Longrightarrow>
          x < get_next (mem s) c + 8 \<or> get_next (mem s) c + 24 \<le> x"
    using n assms(4) by auto
  ultimately show ?thesis using assms(3)
    by (auto simp: remove_block_def Let_def set_outside)
qed

lemma remove_block_seg:
  assumes sg: "seg (mem s) NULL (free_list_start s) fl NULL"
    and c: "c \<in> set fl" and d: "distinct fl" and sp: "sep (set fl)"
    and bd: "\<And>x. x \<in> set fl \<Longrightarrow> x < 2 ^ 64"
  shows "seg (mem (remove_block s c)) NULL (free_list_start (remove_block s c)) (remove1 c fl) NULL"
proof -
  from c obtain xs ys where fl: "fl = xs @ c # ys" by (auto dest: split_list)
  with d have cx: "c \<notin> set xs" and cy: "c \<notin> set ys" and dx: "distinct xs" and dy: "distinct ys"
    and xy: "set xs \<inter> set ys = {}" by auto
  have rm: "remove1 c fl = xs @ ys" using fl cx by (simp add: remove1_append)
  have nn: "NULL \<notin> set fl" using sg by (rule seg_nonnull)
  have fr: "\<And>a b. a \<in> set fl \<Longrightarrow> b \<in> set fl \<Longrightarrow> a \<noteq> b \<Longrightarrow> far a b"
    using sp by (rule sepD)
  from sg fl have s1: "seg (mem s) NULL (free_list_start s) xs c"
    and pc: "get_previous (mem s) c = last (NULL # xs)"
    and s2: "seg (mem s) c (get_next (mem s) c) ys NULL"
    by (auto simp: seg_append)
  have nc: "get_next (mem s) c = (case ys of [] \<Rightarrow> NULL | y # _ \<Rightarrow> y)"
    using s2 by (rule seg_head)
  have hd: "free_list_start s = (case xs of [] \<Rightarrow> c | y # _ \<Rightarrow> y)"
    using s1 by (rule seg_head)
  show ?thesis
  proof (cases xs rule: rev_cases)
    case Nil
    note xs = Nil
    show ?thesis
    proof (cases ys)
      case Nil
      with xs pc nc show ?thesis by (simp add: rm remove_block_def)
    next
      case (Cons y ys')
      have y: "y \<in> set fl" "y \<noteq> c" "y \<noteq> NULL" "y \<notin> set ys'"
        using Cons fl cy nn dy by auto
      let ?m = "set_allocated (set_previous (mem s) y NULL) c 1"
      have "seg ?m NULL y (y # ys') NULL"
      proof (rule seg_relink_first)
        show "seg (mem s) c y (y # ys') NULL" using s2 nc Cons by simp
      next
        fix b assume "b \<in> set ys'"
        then have "far b y" "far b c" using fr[of b y] fr[of b c] y Cons fl cy by auto
        then show "get_previous ?m b = get_previous (mem s) b \<and> get_next ?m b = get_next (mem s) b"
          by (simp add: far_sym)
      next
        show "get_previous ?m y = NULL" using fr[of y c] y c by simp
        show "get_next ?m y = get_next (mem s) y" using fr[of y c] y c by simp
      qed
      with xs Cons pc nc y show ?thesis by (simp add: rm remove_block_def)
    qed
  next
    case (snoc xs' x)
    note xs = snoc
    have x: "x \<in> set fl" "x \<noteq> c" "x \<noteq> NULL" "x \<notin> set xs'" "x < 2 ^ 64"
      using snoc fl cx nn dx bd by auto
    have s1': "seg (mem s) NULL (free_list_start s) (xs' @ [x]) c" using s1 xs by simp
    have hd': "free_list_start s = (case xs' @ [x] of [] \<Rightarrow> NULL | y # _ \<Rightarrow> y)"
      using hd xs by (cases xs') auto
    show ?thesis
    proof (cases ys)
      case Nil
      let ?m = "set_allocated (set_next (mem s) x NULL) c 1"
      have "seg ?m NULL (free_list_start s) (xs' @ [x]) NULL"
      proof (rule seg_relink_last[OF s1'])
        show "x \<notin> set xs'" by fact
      next
        fix b assume "b \<in> set xs'"
        then have "far b x" "far b c" using fr[of b x] fr[of b c] x xs fl cx by auto
        then show "get_previous ?m b = get_previous (mem s) b \<and> get_next ?m b = get_next (mem s) b"
          by (simp add: far_sym)
      next
        show "get_previous ?m x = get_previous (mem s) x" using fr[of x c] x c by simp
        show "get_next ?m x = NULL" using fr[of x c] x c by simp
      qed
      with xs Nil pc nc x show ?thesis by (simp add: rm remove_block_def)
    next
      case (Cons y ys')
      have y: "y \<in> set fl" "y \<noteq> c" "y \<noteq> NULL" "y \<notin> set ys'" "y \<noteq> x" "y < 2 ^ 64"
        using Cons fl cy nn dy xy xs bd by auto
      let ?m = "set_allocated (set_previous (set_next (mem s) x y) y x) c 1"
      have fxy: "far x y" "far x c" "far y c" using fr[of x y] fr[of x c] fr[of y c] x y c by auto
      have A: "seg ?m NULL (free_list_start s) (xs' @ [x]) y"
      proof (rule seg_relink_last[OF s1'])
        show "x \<notin> set xs'" by fact
      next
        fix b assume "b \<in> set xs'"
        then have "far b x" "far b c" "far b y"
          using fr[of b x] fr[of b c] fr[of b y] x y xs fl cx xy Cons by auto
        then show "get_previous ?m b = get_previous (mem s) b \<and> get_next ?m b = get_next (mem s) b"
          by (simp add: far_sym)
      next
        show "get_previous ?m x = get_previous (mem s) x" using fxy by (simp add: far_sym)
        show "get_next ?m x = y" using fxy y by (simp add: far_sym)
      qed
      have B: "seg ?m x y (y # ys') NULL"
      proof (rule seg_relink_first)
        show "seg (mem s) c y (y # ys') NULL" using s2 nc Cons by simp
      next
        fix b assume "b \<in> set ys'"
        then have "far b x" "far b c" "far b y"
          using fr[of b x] fr[of b c] fr[of b y] x y xs fl cy xy Cons by auto
        then show "get_previous ?m b = get_previous (mem s) b \<and> get_next ?m b = get_next (mem s) b"
          by (simp add: far_sym)
      next
        show "get_previous ?m y = x" using fxy x by (simp add: far_sym)
        show "get_next ?m y = get_next (mem s) y" using fxy by (simp add: far_sym)
      qed
      have "seg ?m NULL (free_list_start s) ((xs' @ [x]) @ y # ys') NULL"
        using A B by (subst seg_append) simp
      with xs Cons pc nc x y show ?thesis by (simp add: rm remove_block_def)
    qed
  qed
qed

section \<open>Adding a block to the free list\<close>

lemma remove_block_allocated [simp]: "hdr_allocated (mem (remove_block s c)) c = 1"
  by (simp add: remove_block_def Let_def)

lemma add_block_globals [simp]:
  "segment_start (add_block s c) = segment_start s"
  "segment_end (add_block s c) = segment_end s"
  "segment_size (add_block s c) = segment_size s"
  "free_list_start (add_block s c) = c"
  by (simp_all add: add_block_def Let_def)

lemma add_block_allocated [simp]: "hdr_allocated (mem (add_block s b)) b = 0"
  by (simp add: add_block_def Let_def)

lemma add_block_outside:
  assumes "x < b + 4 \<or> b + 24 \<le> x"
    and "free_list_start s \<noteq> NULL \<Longrightarrow> x < free_list_start s + 8 \<or> free_list_start s + 16 \<le> x"
  shows "mem (add_block s b) x = mem s x"
  using assms by (auto simp: add_block_def Let_def set_outside)

lemma add_block_seg:
  assumes sg: "seg (mem s) NULL (free_list_start s) fl NULL"
    and b: "b \<notin> set fl" "b \<noteq> NULL" "b < 2 ^ 64"
    and fr: "\<And>y. y \<in> set fl \<Longrightarrow> far b y"
    and bd: "\<And>y. y \<in> set fl \<Longrightarrow> y < 2 ^ 64"
    and d: "distinct fl" and sp: "sep (set fl)"
  shows "seg (mem (add_block s b)) NULL (free_list_start (add_block s b)) (b # fl) NULL"
proof (cases fl)
  case Nil
  with sg b show ?thesis by (simp add: add_block_def)
next
  case (Cons y ys)
  with sg have h: "free_list_start s = y" "y \<noteq> NULL" by auto
  have y: "far b y" "y < 2 ^ 64" using fr[of y] bd[of y] Cons by auto
  let ?m = "set_allocated (set_previous (set_next (set_previous (mem s) y b) b y) b NULL) b 0"
  have "seg ?m b y (y # ys) NULL"
  proof (rule seg_relink_first)
    show "seg (mem s) NULL y (y # ys) NULL" using sg Cons h by simp
  next
    fix c assume c: "c \<in> set ys"
    then have "far b c" using fr[of c] Cons by simp
    moreover have "far y c" using sepD[OF sp, of y c] c d Cons by auto
    ultimately show "get_previous ?m c = get_previous (mem s) c \<and> get_next ?m c = get_next (mem s) c"
      by simp
  next
    show "get_previous ?m y = b" using y b by (simp add: far_sym)
    show "get_next ?m y = get_next (mem s) y" using y by (simp add: far_sym)
  qed
  then show ?thesis using h Cons b y by (simp add: add_block_def far_sym)
qed

section \<open>The heap invariant\<close>

lemma wf_blocks_far:
  assumes "wf_blocks a e bl" "(b, p) \<in> set bl" "(c, q) \<in> set bl" "b \<noteq> c"
  shows "far b c"
proof -
  from assms have "b + 8 + p \<le> c \<or> c + 8 + q \<le> b" "16 \<le> p" "16 \<le> q"
    using contig_sep[of a e bl b p c q] by (auto simp: wf_blocks_def)
  then show ?thesis by (auto simp: far_def)
qed

lemma wf_blocks_sep: "wf_blocks a e bl \<Longrightarrow> sep (fst ` set bl)"
  unfolding sep_def by (auto intro: wf_blocks_far)

lemma sep_subset: "sep B \<Longrightarrow> A \<subseteq> B \<Longrightarrow> sep A"
  by (auto simp: sep_def)

lemma wf_blocks_bounds:
  "wf_blocks a e bl \<Longrightarrow> (b, p) \<in> set bl \<Longrightarrow> a \<le> b \<and> b + 24 \<le> e \<and> b + 8 + p \<le> e"
  using contig_mem[of a e bl b p] by (auto simp: wf_blocks_def)

lemma layout_bounds:
  assumes "layout s bl" "(b, p) \<in> set bl"
  shows "0 < b" "b < 2 ^ 64" "p < 2 ^ 32" "16 \<le> p" "segment_start s \<le> b"
    "b + 8 + p \<le> segment_end s" "hdr_payload (mem s) b = p" "b + 8 + p \<le> 2 ^ 64"
  using assms wf_blocks_bounds[of "segment_start s" "segment_end s" bl b p]
  by (auto simp: layout_def wf_blocks_def)

lemma hdr_frame:
  assumes "\<And>x. b \<le> x \<Longrightarrow> x < b + 8 \<Longrightarrow> m' x = m x"
  shows "hdr_payload m' b = hdr_payload m b" "hdr_allocated m' b = hdr_allocated m b"
  using assms by (auto intro!: get_cong)

lemma big_sep: "big s bl fl \<Longrightarrow> sep (set fl)"
  by (auto simp: big_def layout_def intro: sep_subset wf_blocks_sep)

lemma big_fl_block: "big s bl fl \<Longrightarrow> y \<in> set fl \<Longrightarrow> \<exists>q. (y, q) \<in> set bl"
  by (fastforce simp: big_def)

lemma big_fl_bounds:
  assumes "big s bl fl" "y \<in> set fl"
  shows "y < 2 ^ 64 \<and> 0 < y"
proof -
  from big_fl_block[OF assms] obtain q where "(y, q) \<in> set bl" ..
  moreover have "layout s bl" using assms(1) by (simp add: big_def)
  ultimately show ?thesis using layout_bounds(1,2) by blast
qed

lemma big_far: "big s bl fl \<Longrightarrow> (b, p) \<in> set bl \<Longrightarrow> (c, q) \<in> set bl \<Longrightarrow> b \<noteq> c \<Longrightarrow> far b c"
  by (auto simp: big_def layout_def intro: wf_blocks_far)

lemma big_remove:
  assumes big: "big s bl fl" and c: "c \<in> set fl"
  shows "big (remove_block s c) bl (remove1 c fl)"
proof -
  let ?s = "remove_block s c"
  from big have lay: "layout s bl" and fl: "flist s fl" and sub: "set fl \<subseteq> fst ` set bl"
    and flg: "\<And>b p. (b, p) \<in> set bl \<Longrightarrow> (hdr_allocated (mem s) b = 0) = (b \<in> set fl)"
    by (auto simp: big_def)
  from fl have sg: "seg (mem s) NULL (free_list_start s) fl NULL" and d: "distinct fl"
    by (auto simp: flist_def)
  from c sub obtain pc where pc: "(c, pc) \<in> set bl" by auto
  have far: "\<And>b p y. (b, p) \<in> set bl \<Longrightarrow> y \<in> set fl \<Longrightarrow> b \<noteq> y \<Longrightarrow> far b y"
    using sub big_far[OF big] by fastforce
  have pay: "hdr_payload (mem ?s) b = hdr_payload (mem s) b" if "(b, p) \<in> set bl" for b p
  proof (rule get_cong)
    fix x assume x: "b \<le> x" "x < b + 4"
    show "mem ?s x = mem s x"
    proof (rule remove_block_outside[OF sg c])
      show "x < c + 4 \<or> c + 8 \<le> x" using x far[OF that c] by (cases "b = c") (auto simp: far_def)
    next
      fix y assume "y \<in> set fl"
      then show "x < y + 8 \<or> y + 24 \<le> x" using x far[OF that, of y]
        by (cases "b = y") (auto simp: far_def)
    qed
  qed
  have alc: "hdr_allocated (mem ?s) b = hdr_allocated (mem s) b" if "(b, p) \<in> set bl" "b \<noteq> c" for b p
  proof (rule get_cong)
    fix x assume x: "b + 4 \<le> x" "x < b + 8"
    show "mem ?s x = mem s x"
    proof (rule remove_block_outside[OF sg c])
      show "x < c + 4 \<or> c + 8 \<le> x" using x far[OF that(1) c] that(2) by (auto simp: far_def)
    next
      fix y assume "y \<in> set fl"
      then show "x < y + 8 \<or> y + 24 \<le> x" using x far[OF that(1), of y]
        by (cases "b = y") (auto simp: far_def)
    qed
  qed
  have "layout ?s bl" using lay pay by (auto simp: layout_def)
  moreover have "flist ?s (remove1 c fl)"
    using remove_block_seg[OF sg c d big_sep[OF big]] big_fl_bounds[OF big] d
    by (auto simp: flist_def)
  moreover have "set (remove1 c fl) \<subseteq> fst ` set bl" using sub set_remove1_subset by fastforce
  moreover have "(hdr_allocated (mem ?s) b = 0) = (b \<in> set (remove1 c fl))" if "(b, p) \<in> set bl" for b p
    using that alc[OF that] flg[OF that] d by (cases "b = c") auto
  ultimately show ?thesis by (auto simp: big_def)
qed

lemma big_add:
  assumes big: "big s bl fl" and b: "(b, p) \<in> set bl" "b \<notin> set fl"
  shows "big (add_block s b) bl (b # fl)"
proof -
  let ?s = "add_block s b"
  from big have lay: "layout s bl" and fl: "flist s fl" and sub: "set fl \<subseteq> fst ` set bl"
    and flg: "\<And>b p. (b, p) \<in> set bl \<Longrightarrow> (hdr_allocated (mem s) b = 0) = (b \<in> set fl)"
    by (auto simp: big_def)
  from fl have sg: "seg (mem s) NULL (free_list_start s) fl NULL" and d: "distinct fl"
    by (auto simp: flist_def)
  have far: "\<And>c q. (c, q) \<in> set bl \<Longrightarrow> c \<noteq> b \<Longrightarrow> far c b"
    using big_far[OF big _ b(1)] by blast
  have hd: "free_list_start s \<noteq> NULL \<Longrightarrow> free_list_start s \<in> set fl"
    using sg by (cases fl) auto
  have hdb: "free_list_start s \<noteq> NULL \<Longrightarrow> far (free_list_start s) b"
    using hd b sub far by fastforce
  have hdfar: "free_list_start s \<noteq> NULL \<Longrightarrow> (c, q) \<in> set bl \<Longrightarrow> c \<noteq> free_list_start s
     \<Longrightarrow> far c (free_list_start s)" for c q
    using hd sub big_far[OF big, of c q "free_list_start s"] by fastforce
  have pay: "hdr_payload (mem ?s) c = hdr_payload (mem s) c" if "(c, q) \<in> set bl" for c q
  proof (rule get_cong)
    fix x assume x: "c \<le> x" "x < c + 4"
    show "mem ?s x = mem s x"
    proof (rule add_block_outside)
      show "x < b + 4 \<or> b + 24 \<le> x" using x far[OF that] by (cases "c = b") (auto simp: far_def)
    next
      assume "free_list_start s \<noteq> NULL"
      then show "x < free_list_start s + 8 \<or> free_list_start s + 16 \<le> x" 
        using x hdfar[OF _ that] by (cases "c = free_list_start s") (auto simp: far_def)
    qed
  qed
  have alc: "hdr_allocated (mem ?s) c = hdr_allocated (mem s) c" if "(c, q) \<in> set bl" "c \<noteq> b" for c q
  proof (rule get_cong)
    fix x assume x: "c + 4 \<le> x" "x < c + 8"
    show "mem ?s x = mem s x"
    proof (rule add_block_outside)
      show "x < b + 4 \<or> b + 24 \<le> x" using x far[OF that] by (auto simp: far_def)
    next
      assume "free_list_start s \<noteq> NULL"
      then show "x < free_list_start s + 8 \<or> free_list_start s + 16 \<le> x" 
        using x hdfar[OF _ that(1)] by (cases "c = free_list_start s") (auto simp: far_def)
    qed
  qed
  have "layout ?s bl" using lay pay by (auto simp: layout_def)
  moreover have "flist ?s (b # fl)"
  proof -
    have "seg (mem ?s) NULL (free_list_start ?s) (b # fl) NULL"
    proof (rule add_block_seg[OF sg b(2)])
      show "b \<noteq> NULL" "b < 2 ^ 64" using layout_bounds[OF lay b(1)] by auto
      show "far b y" if "y \<in> set fl" for y
        using big_fl_block[OF big that] far[of y] b(2) that by (auto simp: far_sym)
      show "y < 2 ^ 64" if "y \<in> set fl" for y using big_fl_bounds[OF big that] by simp
      show "distinct fl" by fact
      show "sep (set fl)" using big_sep[OF big] .
    qed
    then show ?thesis using d b(2) by (simp add: flist_def)
  qed
  moreover have "set (b # fl) \<subseteq> fst ` set bl" using sub b(1) by force
  moreover have "(hdr_allocated (mem ?s) c = 0) = (c \<in> set (b # fl))" if "(c, q) \<in> set bl" for c q
    using that alc[OF that] flg[OF that] by (cases "c = b") auto
  ultimately show ?thesis by (auto simp: big_def)
qed

section \<open>Splitting a block\<close>

lemma contig_distinct: "contig a e bl \<Longrightarrow> distinct (map fst bl)"
proof (induction a e bl rule: contig.induct)
  case (1 a e)
  then show ?case by simp
next
  case (2 a e b p bl)
  then have c: "contig (a + 8 + p) e bl" and ba: "b = a" by auto
  have "a \<notin> fst ` set bl"
  proof
    assume "a \<in> fst ` set bl"
    then obtain q where "(a, q) \<in> set bl" by auto
    from contig_mem[OF c this] show False by simp
  qed
  with 2 show ?case by simp
qed

lemma remove_block_hdr:
  assumes sg: "seg (mem s) NULL (free_list_start s) fl NULL" and c: "c \<in> set fl"
    and z: "\<And>y. y \<in> set fl \<Longrightarrow> y \<noteq> z \<Longrightarrow> far z y"
  shows "hdr_payload (mem (remove_block s c)) z = hdr_payload (mem s) z"
    and "z \<noteq> c \<Longrightarrow> hdr_allocated (mem (remove_block s c)) z = hdr_allocated (mem s) z"
proof -
  show "hdr_payload (mem (remove_block s c)) z = hdr_payload (mem s) z"
  proof (rule get_cong)
    fix x assume x: "z \<le> x" "x < z + 4"
    show "mem (remove_block s c) x = mem s x"
    proof (rule remove_block_outside[OF sg c])
      show "x < c + 4 \<or> c + 8 \<le> x" using x z[OF c] by (cases "c = z") (auto simp: far_def)
    next
      fix y assume "y \<in> set fl"
      then show "x < y + 8 \<or> y + 24 \<le> x" using x z[of y] by (cases "y = z") (auto simp: far_def)
    qed
  qed
  show "hdr_allocated (mem (remove_block s c)) z = hdr_allocated (mem s) z" if "z \<noteq> c"
  proof (rule get_cong)
    fix x assume x: "z + 4 \<le> x" "x < z + 8"
    show "mem (remove_block s c) x = mem s x"
    proof (rule remove_block_outside[OF sg c])
      show "x < c + 4 \<or> c + 8 \<le> x" using x z[OF c] that by (auto simp: far_def)
    next
      fix y assume "y \<in> set fl"
      then show "x < y + 8 \<or> y + 24 \<le> x" using x z[of y] by (cases "y = z") (auto simp: far_def)
    qed
  qed
qed

lemma add_block_hdr:
  assumes "free_list_start s \<noteq> NULL \<Longrightarrow> free_list_start s \<noteq> z \<Longrightarrow> far z (free_list_start s)"
    and "z \<noteq> b \<Longrightarrow> far z b"
  shows "hdr_payload (mem (add_block s b)) z = hdr_payload (mem s) z"
    and "z \<noteq> b \<Longrightarrow> hdr_allocated (mem (add_block s b)) z = hdr_allocated (mem s) z"
proof -
  show "hdr_payload (mem (add_block s b)) z = hdr_payload (mem s) z"
  proof (rule get_cong)
    fix x assume x: "z \<le> x" "x < z + 4"
    show "mem (add_block s b) x = mem s x"
      using x assms by (intro add_block_outside; cases "z = b"; cases "free_list_start s = z")
        (auto simp: far_def)
  qed
  show "hdr_allocated (mem (add_block s b)) z = hdr_allocated (mem s) z" if "z \<noteq> b"
  proof (rule get_cong)
    fix x assume x: "z + 4 \<le> x" "x < z + 8"
    show "mem (add_block s b) x = mem s x"
      using x assms that by (intro add_block_outside; cases "free_list_start s = z")
        (auto simp: far_def)
  qed
qed

lemma size_t_sub_exact:
  assumes "b \<le> a" "a < 2 ^ 64"
  shows "size_t_sub a b = a - b"
proof -
  have "size_t_sub a b = (a + 2 ^ 64 - b) mod 2 ^ 64"
    using assms by (simp add: size_t_sub_def)
  also have "a + 2 ^ 64 - b = (a - b) + 2 ^ 64" using assms by simp
  also have "(a - b + 2 ^ 64) mod 2 ^ 64 = (a - b) mod 2 ^ 64" by (rule mod_add_self2)
  also have "\<dots> = a - b" using assms by simp
  finally show ?thesis .
qed

lemma size_t_add_exact: "a + b < 2 ^ 64 \<Longrightarrow> size_t_add a b = a + b"
  by (simp add: size_t_add_def)

lemma flist_head: "flist s fl \<Longrightarrow> free_list_start s = (case fl of [] \<Rightarrow> NULL | y # _ \<Rightarrow> y)"
  unfolding flist_def by (auto dest: seg_head)

lemma big_partition:
  assumes big: "big s (xs @ (b, p) # ys) fl" and req: "16 \<le> req" "req + 24 \<le> p"
  shows "big (partition_block s b p req)
           (xs @ (b, req) # (b + req + 8, p - req - 8) # ys) ((b + req + 8) # fl)"
proof -
  let ?bl = "xs @ (b, p) # ys"
  let ?nb = "b + req + 8" and ?np = "p - req - 8"
  let ?bl' = "xs @ (b, req) # (?nb, ?np) # ys"
  let ?s1 = "s\<lparr>mem := set_allocated (set_payload (mem s) ?nb ?np) ?nb 0\<rparr>"
  let ?s2 = "add_block ?s1 ?nb"
  let ?s3 = "?s2\<lparr>mem := set_payload (mem ?s2) b req\<rparr>"
  from big have lay: "layout s ?bl" and fl: "flist s fl" and sub: "set fl \<subseteq> fst ` set ?bl"
    and flg: "\<And>c q. (c, q) \<in> set ?bl \<Longrightarrow> (hdr_allocated (mem s) c = 0) = (c \<in> set fl)"
    by (auto simp: big_def)
  from fl have sg: "seg (mem s) NULL (free_list_start s) fl NULL" and d: "distinct fl"
    by (auto simp: flist_def)
  have bp: "(b, p) \<in> set ?bl" by simp
  note bb = layout_bounds[OF lay bp]
  have pb: "partition_block s b p req = ?s3"
    using req bb by (simp add: partition_block_def Let_def size_t_sub_exact)
  have wf: "wf_blocks (segment_start s) (segment_end s) ?bl"
    using lay by (simp add: layout_def)
  have eq: "b + 8 + req + 8 + ?np = b + 8 + p" using req by simp
  have c1: "contig (segment_start s) b xs" and c2: "contig (b + 8 + p) (segment_end s) ys"
    using wf by (auto simp: wf_blocks_def contig_split)
  have "contig (b + 8 + req + 8 + ?np) (segment_end s) ys" using c2 by (subst eq)
  then have "contig (b + 8 + req) (segment_end s) ((?nb, ?np) # ys)" by simp
  with c1 have "contig (segment_start s) (segment_end s) ?bl'" by (subst contig_split) simp
  then have wf': "wf_blocks (segment_start s) (segment_end s) ?bl'"
    using wf req by (auto simp: wf_blocks_def)
  have far': "\<And>c q c' q'. (c, q) \<in> set ?bl' \<Longrightarrow> (c', q') \<in> set ?bl' \<Longrightarrow> c \<noteq> c' \<Longrightarrow> far c c'"
    using wf' by (rule wf_blocks_far)
  have dist': "distinct (map fst ?bl')"
    using wf' contig_distinct[of "segment_start s" "segment_end s" ?bl'] unfolding wf_blocks_def
    by blast
  have old_new: "(c, q) \<in> set ?bl \<Longrightarrow> c \<noteq> b \<Longrightarrow> (c, q) \<in> set ?bl'" for c q by auto
  have nb_new: "?nb \<notin> fst ` set ?bl" using dist' by auto
  have nbfl: "?nb \<notin> set fl" using nb_new sub by auto
  have far_nb: "far c ?nb" if "(c, q) \<in> set ?bl" for c q
  proof (cases "c = b")
    case True then show ?thesis using req by (simp add: far_def)
  next
    case False
    with that have "(c, q) \<in> set ?bl'" by auto
    moreover have "c \<noteq> ?nb" using that nb_new by force
    ultimately show ?thesis using far'[of c q ?nb ?np] by simp
  qed
  have far_b: "far c b" if "(c, q) \<in> set ?bl" "c \<noteq> b" for c q
    using big_far[OF big that(1) bp that(2)] .
  have flb: "\<exists>q. (y, q) \<in> set ?bl" if "y \<in> set fl" for y
    using big_fl_block[OF big that] .
  have fl_nb: "far y ?nb" if "y \<in> set fl" for y using flb[OF that] far_nb by blast
  have fl_b: "far y b" if "y \<in> set fl" "y \<noteq> b" for y using flb[OF that(1)] far_b that(2) by blast
  have hd: "free_list_start s \<noteq> NULL \<Longrightarrow> free_list_start s \<in> set fl"
    using sg by (cases fl) auto
  have "seg (mem ?s1) NULL (free_list_start ?s1) fl NULL = seg (mem s) NULL (free_list_start ?s1) fl NULL"
    by (rule seg_cong) (simp add: fl_nb)
  with sg have sg1: "seg (mem ?s1) NULL (free_list_start ?s1) fl NULL" by simp
  have sg2: "seg (mem ?s2) NULL (free_list_start ?s2) (?nb # fl) NULL"
  proof (rule add_block_seg[OF sg1 nbfl])
    show "?nb \<noteq> NULL" by simp
    show "?nb < 2 ^ 64" using bb req by simp
    show "far ?nb y" if "y \<in> set fl" for y using fl_nb[OF that] by (simp add: far_sym)
    show "y < 2 ^ 64" if "y \<in> set fl" for y using big_fl_bounds[OF big that] by simp
    show "distinct fl" by fact
    show "sep (set fl)" using big_sep[OF big] .
  qed
  have sg3: "seg (mem ?s3) NULL (free_list_start ?s3) (?nb # fl) NULL"
  proof -
    have "get_previous (mem ?s3) y = get_previous (mem ?s2) y \<and> get_next (mem ?s3) y = get_next (mem ?s2) y"
      if "y \<in> set (?nb # fl)" for y
      using that fl_b[of y] far_nb[OF bp] by (cases "y = b") (auto simp: far_sym)
    then have "seg (mem ?s3) NULL (free_list_start ?s3) (?nb # fl) NULL
        = seg (mem ?s2) NULL (free_list_start ?s3) (?nb # fl) NULL"
      by (intro seg_cong) blast
    with sg2 show ?thesis by simp
  qed
  have hd_far: "free_list_start ?s1 \<noteq> NULL \<Longrightarrow> free_list_start ?s1 \<noteq> c \<Longrightarrow> far c (free_list_start ?s1)"
    if "(c, q) \<in> set ?bl'" for c q
  proof -
    assume h: "free_list_start ?s1 \<noteq> NULL" "free_list_start ?s1 \<noteq> c"
    then have "free_list_start s \<in> set fl" using hd by simp
    then obtain q' where "(free_list_start s, q') \<in> set ?bl" using flb by blast
    then have "c = ?nb \<or> (\<exists>q. (c, q) \<in> set ?bl)" "far (free_list_start s) ?nb"
      using that far_nb by auto
    then show ?thesis using h big_far[OF big _ \<open>(free_list_start s, q') \<in> set ?bl\<close>]
      by (auto simp: far_sym)
  qed
  have pay_other: "hdr_payload (mem ?s3) c = hdr_payload (mem s) c"
    and alc_other: "hdr_allocated (mem ?s3) c = hdr_allocated (mem s) c"
    if "(c, q) \<in> set ?bl" "c \<noteq> b" for c q
  proof -
    have c': "(c, q) \<in> set ?bl'" using that by auto
    have cn: "c \<noteq> ?nb" "far c ?nb" "far c b" using that nb_new far_nb far_b by force+
    show "hdr_payload (mem ?s3) c = hdr_payload (mem s) c"
      using cn add_block_hdr(1)[of ?s1 c ?nb, OF hd_far[OF c']] by (simp add: far_sym)
    show "hdr_allocated (mem ?s3) c = hdr_allocated (mem s) c"
      using cn add_block_hdr(2)[of ?s1 c ?nb, OF hd_far[OF c']] by (simp add: far_sym)
  qed
  have b': "(b, req) \<in> set ?bl'" by simp
  have alc_b: "hdr_allocated (mem ?s3) b = hdr_allocated (mem s) b"
    using far_nb[OF bp] add_block_hdr(2)[of ?s1 b ?nb, OF hd_far[OF b']] by (simp add: far_sym)
  have pay_b: "hdr_payload (mem ?s3) b = req" using req bb by simp
  have nb': "(?nb, ?np) \<in> set ?bl'" by simp
  have pay_nb: "hdr_payload (mem ?s3) ?nb = ?np"
    using far_nb[OF bp] add_block_hdr(1)[of ?s1 ?nb ?nb, OF hd_far[OF nb']] bb by (simp add: far_sym)
  have alc_nb: "hdr_allocated (mem ?s3) ?nb = 0"
    using far_nb[OF bp] by (simp add: far_sym)
  have "b \<notin> fst ` (set xs \<union> set ys)" "?nb \<notin> fst ` (set xs \<union> set ys)"
    using dist' by auto
  then have rest: "c \<noteq> b \<and> c \<noteq> ?nb" if "(c, q) \<in> set xs \<union> set ys" for c q
    using that by (metis fst_conv imageI)
  have "hdr_payload (mem ?s3) c = q" if "(c, q) \<in> set ?bl'" for c q
  proof -
    from that consider "c = b" "q = req" | "c = ?nb" "q = ?np" | "(c, q) \<in> set xs \<union> set ys"
      by auto
    then show ?thesis
    proof cases
      case 1 then show ?thesis using pay_b by simp
    next
      case 2 then show ?thesis using pay_nb by simp
    next
      case 3
      then have "(c, q) \<in> set ?bl" "c \<noteq> b" using rest by auto
      from pay_other[OF this] layout_bounds(7)[OF lay this(1)] show ?thesis by simp
    qed
  qed
  then have "\<forall>(c, q)\<in>set ?bl'. hdr_payload (mem ?s3) c = q" by blast
  then have L: "layout ?s3 ?bl'"
    using lay wf' unfolding layout_def by simp
  have F: "flist ?s3 (?nb # fl)" using sg3 d nbfl by (simp add: flist_def)
  have S: "set (?nb # fl) \<subseteq> fst ` set ?bl'" using sub by auto
  have "(hdr_allocated (mem ?s3) c = 0) = (c \<in> set (?nb # fl))" if "(c, q) \<in> set ?bl'" for c q
  proof -
    from that consider "c = b" | "c = ?nb" | "(c, q) \<in> set ?bl" "c \<noteq> b" "c \<noteq> ?nb"
      using rest[of c q] by auto
    then show ?thesis
    proof cases
      case 1 then show ?thesis using alc_b flg[OF bp] by simp
    next
      case 2 then show ?thesis using alc_nb by simp
    next
      case 3 then show ?thesis using alc_other[OF 3(1,2)] flg[OF 3(1)] by simp
    qed
  qed
  then have G: "\<forall>(c, q)\<in>set ?bl'. (hdr_allocated (mem ?s3) c = 0) = (c \<in> set (?nb # fl))"
    by blast
  show ?thesis unfolding pb big_def using L F S G by blast
qed

section \<open>Coalescing and first fit\<close>

lemma big_layout: "big s bl fl \<Longrightarrow> layout s bl"
  by (simp add: big_def)

lemma big_flist: "big s bl fl \<Longrightarrow> seg (mem s) NULL (free_list_start s) fl NULL \<and> distinct fl"
  by (simp add: big_def flist_def)

lemma big_flag: "big s bl fl \<Longrightarrow> (b, p) \<in> set bl \<Longrightarrow> (hdr_allocated (mem s) b = 0) = (b \<in> set fl)"
  by (auto simp: big_def)

lemma bigI:
  assumes "layout s bl" "seg (mem s) NULL (free_list_start s) fl NULL" "distinct fl"
    "set fl \<subseteq> fst ` set bl"
    "\<And>b p. (b, p) \<in> set bl \<Longrightarrow> (hdr_allocated (mem s) b = 0) = (b \<in> set fl)"
  shows "big s bl fl"
  using assms unfolding big_def flist_def by blast

lemma layoutI:
  assumes "0 < segment_start s" "segment_end s \<le> 2 ^ 64"
    "segment_end s < segment_start s + 2 ^ 32 + 8"
    "wf_blocks (segment_start s) (segment_end s) bl"
    "\<And>b p. (b, p) \<in> set bl \<Longrightarrow> hdr_payload (mem s) b = p"
  shows "layout s bl"
  using assms unfolding layout_def by blast

lemma layout_wf: "layout s bl \<Longrightarrow> wf_blocks (segment_start s) (segment_end s) bl"
  by (simp add: layout_def)

lemma big_coalesce_step:
  assumes big: "big s (xs @ (b, p) # (c, q) # ys) fl" and c: "c \<in> set fl"
  shows "big (remove_block (s\<lparr>mem := set_payload (mem s) b (p + (q + 8))\<rparr>) c)
           (xs @ (b, p + q + 8) # ys) (remove1 c fl)"
    and "hdr_payload (mem (remove_block (s\<lparr>mem := set_payload (mem s) b (p + (q + 8))\<rparr>) c)) c = q"
proof -
  let ?bl = "xs @ (b, p) # (c, q) # ys"
  let ?bl' = "xs @ (b, p + q + 8) # ys"
  let ?s1 = "s\<lparr>mem := set_payload (mem s) b (p + (q + 8))\<rparr>"
  let ?s2 = "remove_block ?s1 c"
  note lay = big_layout[OF big]
  note sg = big_flist[OF big, THEN conjunct1] and d = big_flist[OF big, THEN conjunct2]
  have bp: "(b, p) \<in> set ?bl" and cq: "(c, q) \<in> set ?bl" by simp_all
  note bb = layout_bounds[OF lay bp] and cb = layout_bounds[OF lay cq]
  have wf: "wf_blocks (segment_start s) (segment_end s) ?bl" using lay by (rule layout_wf)
  then have c1: "contig (segment_start s) b xs"
    and c2: "contig (b + 8 + p) (segment_end s) ((c, q) # ys)"
    by (auto simp: wf_blocks_def contig_split)
  from c2 have cdef: "c = b + 8 + p" and c3: "contig (c + 8 + q) (segment_end s) ys" by auto
  have eq: "b + 8 + (p + q + 8) = c + 8 + q" using cdef by simp
  have "contig (b + 8 + (p + q + 8)) (segment_end s) ys" using c3 by (subst eq)
  with c1 have "contig (segment_start s) (segment_end s) ?bl'" by (subst contig_split) simp
  then have wf': "wf_blocks (segment_start s) (segment_end s) ?bl'"
    using wf by (auto simp: wf_blocks_def)
  have sum: "p + q + 8 < 2 ^ 32"
    using cb(6) bb(5) cdef lay by (simp add: layout_def)
  have bc: "b \<noteq> c" "far b c" using cdef bb(4) by (auto simp: far_def)
  have dist: "distinct (map fst ?bl)"
    using wf contig_distinct[of "segment_start s" "segment_end s" ?bl] unfolding wf_blocks_def
    by blast
  have new_old: "(z, r) \<in> set ?bl \<and> z \<noteq> b \<and> z \<noteq> c" if "(z, r) \<in> set xs \<union> set ys" for z r
  proof -
    have "b \<notin> fst ` (set xs \<union> set ys)" "c \<notin> fst ` (set xs \<union> set ys)" using dist by auto
    then show ?thesis using that by (metis UnE UnI1 UnI2 fst_conv imageI list.set_intros(2) set_append)
  qed
  have far_fl: "far z y" if "(z, r) \<in> set ?bl" "y \<in> set fl" "y \<noteq> z" for z r y
  proof -
    from big_fl_block[OF big that(2)] obtain t where "(y, t) \<in> set ?bl" ..
    from big_far[OF big that(1) this] that(3) show ?thesis by simp
  qed
  have "seg (mem ?s1) NULL (free_list_start ?s1) fl NULL = seg (mem s) NULL (free_list_start ?s1) fl NULL"
  proof (rule seg_cong)
    fix y assume "y \<in> set fl"
    then show "get_previous (mem ?s1) y = get_previous (mem s) y \<and> get_next (mem ?s1) y = get_next (mem s) y"
      using far_fl[OF bp, of y] by (cases "y = b") auto
  qed
  with sg have sg1: "seg (mem ?s1) NULL (free_list_start ?s1) fl NULL" by simp
  have sg2: "seg (mem ?s2) NULL (free_list_start ?s2) (remove1 c fl) NULL"
    using remove_block_seg[OF sg1 c d big_sep[OF big]] big_fl_bounds[OF big] by blast
  have pay2: "hdr_payload (mem ?s2) z = hdr_payload (mem ?s1) z"
    and alc2: "z \<noteq> c \<Longrightarrow> hdr_allocated (mem ?s2) z = hdr_allocated (mem ?s1) z"
    if "(z, r) \<in> set ?bl" for z r
    using remove_block_hdr[OF sg1 c, of z] far_fl[OF that] by blast+
  show "hdr_payload (mem ?s2) c = q"
    using pay2[OF cq] bc cb(7) by simp
  have pay_b: "hdr_payload (mem ?s2) b = p + q + 8" using pay2[OF bp] sum by simp
  have pay_o: "hdr_payload (mem ?s2) z = r" if "(z, r) \<in> set xs \<union> set ys" for z r
  proof -
    from new_old[OF that] have z: "(z, r) \<in> set ?bl" "z \<noteq> b" "z \<noteq> c" by auto
    then have "far b z" using big_far[OF big bp z(1)] by simp
    then show ?thesis using pay2[OF z(1)] layout_bounds(7)[OF lay z(1)] by simp
  qed
  have alc: "hdr_allocated (mem ?s2) z = hdr_allocated (mem s) z" if "(z, r) \<in> set ?bl" "z \<noteq> c" for z r
  proof -
    have "z = b \<or> far b z" using big_far[OF big bp that(1)] by auto
    then show ?thesis using alc2[OF that] by auto
  qed
  have L: "layout ?s2 ?bl'"
  proof (rule layoutI)
    show "wf_blocks (segment_start ?s2) (segment_end ?s2) ?bl'" using wf' by simp
    show "hdr_payload (mem ?s2) z = r" if "(z, r) \<in> set ?bl'" for z r
      using that pay_b pay_o[of z r] by auto
  qed (use lay in \<open>simp_all add: layout_def\<close>)
  show "big ?s2 ?bl' (remove1 c fl)"
  proof (rule bigI[OF L sg2])
    show "distinct (remove1 c fl)" using d by simp
    show "set (remove1 c fl) \<subseteq> fst ` set ?bl'"
    proof
      fix y assume y: "y \<in> set (remove1 c fl)"
      then have "y \<in> set fl" "y \<noteq> c" using d by auto
      with big_fl_block[OF big this(1)] show "y \<in> fst ` set ?bl'" by force
    qed
    show "(hdr_allocated (mem ?s2) z = 0) = (z \<in> set (remove1 c fl))" if "(z, r) \<in> set ?bl'" for z r
    proof -
      from that have "z = b \<or> (z, r) \<in> set xs \<union> set ys" by auto
      then obtain r' where z: "(z, r') \<in> set ?bl" "z \<noteq> c" using bc new_old[of z r] by auto
      show ?thesis using alc[OF z] big_flag[OF big z(1)] z(2) d by simp
    qed
  qed
qed

lemma big_next_block:
  assumes "big s (xs @ (b, p) # ys) fl"
  shows "ys = [] \<Longrightarrow> b + p + 8 = segment_end s"
    and "ys = (c, q) # zs \<Longrightarrow> c = b + p + 8 \<and> c < segment_end s"
proof -
  have wf: "wf_blocks (segment_start s) (segment_end s) (xs @ (b, p) # ys)"
    using assms by (simp add: big_def layout_def)
  then have c2: "contig (b + 8 + p) (segment_end s) ys" by (auto simp: wf_blocks_def contig_split)
  show "ys = [] \<Longrightarrow> b + p + 8 = segment_end s" using c2 by auto
  show "ys = (c, q) # zs \<Longrightarrow> c = b + p + 8 \<and> c < segment_end s"
    using c2 wf_blocks_bounds[OF wf, of c q] by auto
qed

lemma coalesce_loop_big:
  "big s (xs @ (b, p) # ys) fl \<Longrightarrow> absorb fl p ys = (p', ys', fl')
     \<Longrightarrow> big (coalesce_loop s b (b + p + 8)) (xs @ (b, p') # ys') fl'"
proof (induction ys arbitrary: s p fl)
  case Nil
  from big_next_block(1)[OF Nil(1)] have "b + p + 8 = segment_end s" by simp
  then have "coalesce_loop s b (b + p + 8) = s" by (subst coalesce_loop.simps) simp
  with Nil show ?case by simp
next
  case (Cons cq ys)
  obtain c q where cq: "cq = (c, q)" by (cases cq)
  note big = Cons.prems(1)[unfolded cq]
  from big_next_block(2)[OF big] have c: "c = b + p + 8" "c < segment_end s" by auto
  have pb: "hdr_payload (mem s) b = p" and pc: "hdr_payload (mem s) c = q"
    using layout_bounds(7)[OF big_layout[OF big]] by auto
  have flag: "(hdr_allocated (mem s) c = 0) = (c \<in> set fl)"
    using big_flag[OF big, of c q] by simp
  show ?case
  proof (cases "c \<in> set fl")
    case True
    let ?s2 = "remove_block (s\<lparr>mem := set_payload (mem s) b (p + (q + 8))\<rparr>) c"
    from big_coalesce_step[OF big True]
    have big2: "big ?s2 (xs @ (b, p + q + 8) # ys) (remove1 c fl)"
      and pc2: "hdr_payload (mem ?s2) c = q" by auto
    have ab: "absorb (remove1 c fl) (p + q + 8) ys = (p', ys', fl')"
      using Cons.prems(2) True cq by simp
    have "coalesce_loop s b (b + p + 8) = coalesce_loop ?s2 b (c + q + 8)"
      using c True flag pb pc pc2 by (subst coalesce_loop.simps) (simp add: Let_def)
    also have "c + q + 8 = b + (p + q + 8) + 8" using c by simp
    finally show ?thesis using Cons.IH[OF big2 ab] by simp
  next
    case False
    then have "coalesce_loop s b (b + p + 8) = s"
      using c flag by (subst coalesce_loop.simps) simp
    with Cons.prems False cq show ?thesis by simp
  qed
qed

lemma coalesce_loop_data:
  "big s (xs @ (b, p) # ys) fl \<Longrightarrow> b \<notin> set fl \<Longrightarrow> b + 4 \<le> x \<Longrightarrow> x < b + 8 + p
     \<Longrightarrow> mem (coalesce_loop s b (b + p + 8)) x = mem s x"
proof (induction ys arbitrary: s p fl)
  case Nil
  from big_next_block(1)[OF Nil(1)] have "b + p + 8 = segment_end s" by simp
  then have "coalesce_loop s b (b + p + 8) = s" by (subst coalesce_loop.simps) simp
  then show ?case by simp
next
  case (Cons cq ys)
  obtain c q where cq: "cq = (c, q)" by (cases cq)
  note big = Cons.prems(1)[unfolded cq]
  let ?bl = "xs @ (b, p) # (c, q) # ys"
  from big_next_block(2)[OF big] have c: "c = b + p + 8" "c < segment_end s" by auto
  have pb: "hdr_payload (mem s) b = p" and pc: "hdr_payload (mem s) c = q"
    using layout_bounds(7)[OF big_layout[OF big]] by auto
  have flag: "(hdr_allocated (mem s) c = 0) = (c \<in> set fl)"
    using big_flag[OF big, of c q] by simp
  show ?case
  proof (cases "c \<in> set fl")
    case True
    let ?s1 = "s\<lparr>mem := set_payload (mem s) b (p + (q + 8))\<rparr>"
    let ?s2 = "remove_block ?s1 c"
    from big_coalesce_step[OF big True]
    have big2: "big ?s2 (xs @ (b, p + q + 8) # ys) (remove1 c fl)"
      and pc2: "hdr_payload (mem ?s2) c = q" by auto
    have "coalesce_loop s b (b + p + 8) = coalesce_loop ?s2 b (c + q + 8)"
      using c True flag pb pc pc2 by (subst coalesce_loop.simps) (simp add: Let_def)
    also have "c + q + 8 = b + (p + q + 8) + 8" using c by simp
    finally have eq: "coalesce_loop s b (b + p + 8) = coalesce_loop ?s2 b (b + (p + q + 8) + 8)" .
    have "mem (coalesce_loop ?s2 b (b + (p + q + 8) + 8)) x = mem ?s2 x"
      using Cons.IH[OF big2] Cons.prems(2,3,4) by (simp add: notin_set_remove1)
    also have "mem ?s2 x = mem ?s1 x"
    proof (rule remove_block_outside[where fl = fl])
      have "seg (mem ?s1) NULL (free_list_start ?s1) fl NULL = seg (mem s) NULL (free_list_start ?s1) fl NULL"
      proof (rule seg_cong)
        fix y assume y: "y \<in> set fl"
        from big_fl_block[OF big y] obtain t where "(y, t) \<in> set ?bl" ..
        from big_far[OF big this, of b p] y Cons.prems(2) have "far y b" by auto
        then show "get_previous (mem ?s1) y = get_previous (mem s) y \<and> get_next (mem ?s1) y = get_next (mem s) y"
          by simp
      qed
      then show "seg (mem ?s1) NULL (free_list_start ?s1) fl NULL" using big_flist[OF big] by simp
      show "c \<in> set fl" by fact
      show "x < c + 4 \<or> c + 8 \<le> x" using Cons.prems(4) c by simp
      fix y assume y: "y \<in> set fl"
      from big_fl_block[OF big y] obtain t where t: "(y, t) \<in> set ?bl" ..
      have "y \<noteq> b" using y Cons.prems(2) by auto
      from contig_sep[of "segment_start s" "segment_end s" ?bl y t b p] t this
        layout_wf[OF big_layout[OF big]] layout_bounds(4)[OF big_layout[OF big] t]
      have "y + 24 \<le> b \<or> b + 8 + p \<le> y" by (auto simp: wf_blocks_def)
      then show "x < y + 8 \<or> y + 24 \<le> x" using Cons.prems(3,4) by auto
    qed
    also have "mem ?s1 x = mem s x" using Cons.prems(3) by (simp add: set_outside)
    finally show ?thesis using eq by simp
  next
    case False
    then have "coalesce_loop s b (b + p + 8) = s"
      using c flag by (subst coalesce_loop.simps) simp
    then show ?thesis by simp
  qed
qed

lemma coalesce_loop_globals:
  "segment_start (coalesce_loop s b c) = segment_start s \<and>
   segment_end (coalesce_loop s b c) = segment_end s \<and>
   segment_size (coalesce_loop s b c) = segment_size s"
proof (induction s b c rule: coalesce_loop.induct)
  case (1 s block curr_block)
  show ?case
  proof (cases "curr_block < segment_end s \<and> hdr_allocated (mem s) curr_block = 0")
    case True
    then show ?thesis using 1[OF True refl refl]
      by (subst (1 2 3) coalesce_loop.simps) (simp add: Let_def)
  next
    case False
    then show ?thesis by (subst (1 2 3) coalesce_loop.simps) auto
  qed
qed

lemma seg_is_free_list: "seg m p h fl NULL \<Longrightarrow> is_free_list m h fl"
  by (induction fl arbitrary: p h) auto

lemma is_free_list_unique: "is_free_list m h fl \<Longrightarrow> is_free_list m h fl' \<Longrightarrow> fl = fl'"
proof (induction fl arbitrary: h fl')
  case Nil
  then show ?case by (cases fl') auto
next
  case (Cons b bs)
  then show ?case by (cases fl') auto
qed

lemma find_fit_loop_scan:
  "is_free_list (mem s) h fl \<Longrightarrow>
   find_fit_loop s req h =
     (case find (\<lambda>c. req \<le> hdr_payload (mem s) c) fl of
        None \<Rightarrow> Some (NULL, s)
      | Some c \<Rightarrow>
          Some (c, remove_block
                 (if size_t_add req MIN_BLOCK_SIZE \<le> hdr_payload (mem s) c
                  then partition_block s c (hdr_payload (mem s) c) req else s) c))"
proof (induction fl arbitrary: h)
  case Nil
  then show ?case by (subst find_fit_loop.simps) simp
next
  case (Cons b bs)
  then have h: "h = b" "b \<noteq> NULL" and rest: "is_free_list (mem s) (get_next (mem s) b) bs"
    by auto
  show ?case
  proof (cases "req \<le> hdr_payload (mem s) b")
    case True
    then show ?thesis using h by (subst find_fit_loop.simps) simp
  next
    case False
    then show ?thesis using h Cons.IH[OF rest] by (subst find_fit_loop.simps) simp
  qed
qed

lemma find_SomeD: "find P xs = Some x \<Longrightarrow> x \<in> set xs \<and> P x"
  by (auto simp: find_Some_iff)

lemma big_take_block:
  assumes big: "big s (xs @ (c, p) # ys) fl" and c: "c \<in> set fl" and req: "16 \<le> req" "req \<le> p"
  shows "big (remove_block
                 (if size_t_add req MIN_BLOCK_SIZE \<le> hdr_payload (mem s) c
                  then partition_block s c (hdr_payload (mem s) c) req else s) c)
             (if req + 24 \<le> p then xs @ (c, req) # (c + req + 8, p - req - 8) # ys
              else xs @ (c, p) # ys)
             (if req + 24 \<le> p then (c + req + 8) # remove1 c fl else remove1 c fl)"
proof -
  have cp: "(c, p) \<in> set (xs @ (c, p) # ys)" by simp
  note cb = layout_bounds[OF big_layout[OF big] cp]
  have sa: "size_t_add req 24 = req + 24" using req cb(3) by (simp add: size_t_add_exact)
  show ?thesis
  proof (cases "req + 24 \<le> p")
    case True
    from big_partition[OF big req(1) True]
    have b2: "big (partition_block s c p req) (xs @ (c, req) # (c + req + 8, p - req - 8) # ys)
               ((c + req + 8) # fl)" .
    have "c \<in> set ((c + req + 8) # fl)" using c by simp
    from big_remove[OF b2 this] show ?thesis using True sa cb(7) by simp
  next
    case False
    from big_remove[OF big c] show ?thesis using False sa cb(7) by simp
  qed
qed

text \<open>Writes into the payload of allocated blocks, by the user or by \<open>memcpy\<close>.\<close>

lemma big_data_write:
  assumes big: "big s bl fl"
    and w: "\<And>x. m' x \<noteq> mem s x \<Longrightarrow> \<exists>(b, p)\<in>set bl. b \<notin> set fl \<and> b + 8 \<le> x \<and> x < b + 8 + p"
  shows "big (s\<lparr>mem := m'\<rparr>) bl fl"
proof -
  note lay = big_layout[OF big]
  have wf: "wf_blocks (segment_start s) (segment_end s) bl" using lay by (rule layout_wf)
  have hdr: "m' x = mem s x" if "(z, r) \<in> set bl" "z \<le> x" "x < z + 8" for z r x
  proof (rule ccontr)
    assume "m' x \<noteq> mem s x"
    from w[OF this] obtain b p where b: "(b, p) \<in> set bl" "b + 8 \<le> x" "x < b + 8 + p" by auto
    then have "b \<noteq> z" using that by auto
    from contig_sep[of "segment_start s" "segment_end s" bl b p z r] b(1) that(1) this wf
    have "b + 8 + p \<le> z \<or> z + 8 + r \<le> b" by (auto simp: wf_blocks_def)
    then show False using b that by auto
  qed
  have lnk: "m' x = mem s x" if "z \<in> set fl" "z + 8 \<le> x" "x < z + 24" for z x
  proof (rule ccontr)
    assume "m' x \<noteq> mem s x"
    from w[OF this] obtain b p where b: "(b, p) \<in> set bl" "b \<notin> set fl" "b + 8 \<le> x" "x < b + 8 + p"
      by auto
    from big_fl_block[OF big that(1)] obtain r where r: "(z, r) \<in> set bl" ..
    have "b \<noteq> z" using b(2) that(1) by auto
    from contig_sep[of "segment_start s" "segment_end s" bl b p z r] b(1) r this wf
      layout_bounds(4)[OF lay r]
    have "b + 8 + p \<le> z \<or> z + 24 \<le> b" by (auto simp: wf_blocks_def)
    then show False using b that by auto
  qed
  have P: "hdr_payload m' z = hdr_payload (mem s) z" and A: "hdr_allocated m' z = hdr_allocated (mem s) z"
    if "(z, r) \<in> set bl" for z r
    using hdr[OF that] by (auto intro!: get_cong)
  have "seg m' NULL (free_list_start s) fl NULL = seg (mem s) NULL (free_list_start s) fl NULL"
  proof (rule seg_cong)
    fix y assume "y \<in> set fl"
    then show "get_previous m' y = get_previous (mem s) y \<and> get_next m' y = get_next (mem s) y"
      using lnk[of y] by (auto intro!: get_cong)
  qed
  then have sg: "seg (mem (s\<lparr>mem := m'\<rparr>)) NULL (free_list_start (s\<lparr>mem := m'\<rparr>)) fl NULL"
    using big_flist[OF big] by simp
  have L: "layout (s\<lparr>mem := m'\<rparr>) bl"
    using lay P unfolding layout_def by auto
  show ?thesis
  proof (rule bigI[OF L sg])
    show "distinct fl" using big_flist[OF big] by simp
    show "set fl \<subseteq> fst ` set bl" using big by (simp add: big_def)
    show "(hdr_allocated (mem (s\<lparr>mem := m'\<rparr>)) b = 0) = (b \<in> set fl)" if "(b, p) \<in> set bl" for b p
      using A[OF that] big_flag[OF big that] by simp
  qed
qed

lemma big_set_allocated_free:
  assumes big: "big s bl fl" and b: "b \<in> set fl"
  shows "big (s\<lparr>mem := set_allocated (mem s) b 0\<rparr>) bl fl"
proof -
  note lay = big_layout[OF big]
  from big_fl_block[OF big b] obtain p where bp: "(b, p) \<in> set bl" ..
  let ?s = "s\<lparr>mem := set_allocated (mem s) b 0\<rparr>"
  have fz: "z = b \<or> far b z" if "(z, r) \<in> set bl" for z r
    using big_far[OF big bp that] by auto
  have "seg (mem ?s) NULL (free_list_start ?s) fl NULL = seg (mem s) NULL (free_list_start ?s) fl NULL"
  proof (rule seg_cong)
    fix y assume y: "y \<in> set fl"
    from big_fl_block[OF big y] obtain r where "(y, r) \<in> set bl" ..
    from fz[OF this]
    show "get_previous (mem ?s) y = get_previous (mem s) y \<and> get_next (mem ?s) y = get_next (mem s) y"
      by auto
  qed
  then have sg: "seg (mem ?s) NULL (free_list_start ?s) fl NULL" using big_flist[OF big] by simp
  have L: "layout ?s bl"
  proof (rule layoutI)
    show "hdr_payload (mem ?s) z = r" if "(z, r) \<in> set bl" for z r
      using fz[OF that] layout_bounds(7)[OF lay that] by auto
  qed (use lay in \<open>simp_all add: layout_def\<close>)
  show ?thesis
  proof (rule bigI[OF L sg])
    show "distinct fl" using big_flist[OF big] by simp
    show "set fl \<subseteq> fst ` set bl" using big by (simp add: big_def)
    show "(hdr_allocated (mem ?s) z = 0) = (z \<in> set fl)" if "(z, r) \<in> set bl" for z r
      using fz[OF that] big_flag[OF big that] b by auto
  qed
qed

section \<open>The operations preserve the invariant\<close>

lemma absorb_props:
  "absorb fl p ys = (p', ys', fl') \<Longrightarrow>
     set fl' \<subseteq> set fl \<and> p \<le> p' \<and> (ys' = [] \<or> fst (hd ys') \<notin> set fl') \<and>
     (\<exists>zs. ys = zs @ ys' \<and> fst ` set zs \<subseteq> set fl \<and> p' = p + sum_list (map (\<lambda>(c, q). q + 8) zs))"
proof (induction ys arbitrary: fl p)
  case Nil
  then show ?case by simp
next
  case (Cons cq ys)
  obtain c q where cq: "cq = (c, q)" by (cases cq)
  show ?case
  proof (cases "c \<in> set fl")
    case True
    with Cons.prems cq have "absorb (remove1 c fl) (p + q + 8) ys = (p', ys', fl')" by simp
    from Cons.IH[OF this] obtain zs where
      1: "set fl' \<subseteq> set (remove1 c fl)" "p + q + 8 \<le> p'" "ys' = [] \<or> fst (hd ys') \<notin> set fl'"
      and 2: "ys = zs @ ys'" "fst ` set zs \<subseteq> set (remove1 c fl)"
        "p' = p + q + 8 + sum_list (map (\<lambda>(c, q). q + 8) zs)"
      by auto
    have sub: "set (remove1 c fl) \<subseteq> set fl" by (rule set_remove1_subset)
    have "cq # ys = ((c, q) # zs) @ ys'" using 2 cq by simp
    moreover have "fst ` set ((c, q) # zs) \<subseteq> set fl" using 2 sub True by auto
    moreover have "p' = p + sum_list (map (\<lambda>(c, q). q + 8) ((c, q) # zs))" using 2 by simp
    ultimately show ?thesis using 1 sub by (intro conjI exI[of _ "(c, q) # zs"]) auto
  next
    case False
    with Cons.prems cq have "p' = p" "ys' = cq # ys" "fl' = fl" by auto
    then show ?thesis using False cq by (intro conjI exI[of _ "[]"]) auto
  qed
qed

lemma absorb_aligned:
  "absorb fl p ys = (p', ys', fl') \<Longrightarrow> A dvd 8 \<Longrightarrow> A dvd p \<Longrightarrow> aligned_blocks A ys
     \<Longrightarrow> A dvd p' \<and> aligned_blocks A ys'"
proof (induction ys arbitrary: fl p)
  case Nil
  then show ?case by simp
next
  case (Cons cq ys)
  obtain c q where cq: "cq = (c, q)" by (cases cq)
  show ?case
  proof (cases "c \<in> set fl")
    case True
    with Cons.prems cq have a: "absorb (remove1 c fl) (p + q + 8) ys = (p', ys', fl')" by simp
    have "A dvd p + q + 8" "aligned_blocks A ys"
      using Cons.prems cq by (auto simp: aligned_blocks_def)
    from Cons.IH[OF a Cons.prems(2) this] show ?thesis .
  next
    case False
    with Cons.prems cq show ?thesis by auto
  qed
qed

lemma coalesce_right_eq:
  "big s (xs @ (b, p) # ys) fl \<Longrightarrow> coalesce_right s b = coalesce_loop s b (b + p + 8)"
  using layout_bounds(1,7)[OF big_layout, of s "xs @ (b, p) # ys" fl b p]
  by (simp add: coalesce_right_def)

lemma myfree_big:
  assumes big: "big s (xs @ (b, p) # ys) fl" and b: "b \<notin> set fl"
    and ab: "absorb fl p ys = (p', ys', fl')"
  shows "big (myfree s (b + 8)) (xs @ (b, p') # ys') (b # fl')"
proof -
  let ?s1 = "coalesce_right s b"
  let ?s2 = "add_block ?s1 b"
  have b1: "big ?s1 (xs @ (b, p') # ys') fl'"
    using coalesce_loop_big[OF big ab] coalesce_right_eq[OF big] by simp
  have bfl: "b \<notin> set fl'" using absorb_props[OF ab] b by auto
  have b2: "big ?s2 (xs @ (b, p') # ys') (b # fl')"
    by (rule big_add[OF b1 _ bfl, of p']) simp
  have "big (?s2\<lparr>mem := set_allocated (mem ?s2) b 0\<rparr>) (xs @ (b, p') # ys') (b # fl')"
    by (rule big_set_allocated_free[OF b2]) simp
  then show ?thesis by (simp add: myfree_def Let_def)
qed

lemma find_fit_big:
  assumes big: "big s bl fl" and req: "16 \<le> req"
  shows "(find (\<lambda>c. req \<le> hdr_payload (mem s) c) fl = None \<and> find_fit s req = Some (NULL, s)) \<or>
    (\<exists>c p xs ys s'. find (\<lambda>c. req \<le> hdr_payload (mem s) c) fl = Some c \<and>
       find_fit s req = Some (c, s') \<and> c \<noteq> NULL \<and> c \<in> set fl \<and> bl = xs @ (c, p) # ys \<and> req \<le> p \<and>
       big s' (if req + 24 \<le> p then xs @ (c, req) # (c + req + 8, p - req - 8) # ys
              else xs @ (c, p) # ys)
             (if req + 24 \<le> p then (c + req + 8) # remove1 c fl else remove1 c fl))"
proof -
  have fl: "is_free_list (mem s) (free_list_start s) fl"
    using big_flist[OF big] by (auto intro: seg_is_free_list)
  note scan = find_fit_loop_scan[OF fl, of req]
  show ?thesis
  proof (cases "find (\<lambda>c. req \<le> hdr_payload (mem s) c) fl")
    case None
    then show ?thesis using scan by (simp add: find_fit_def)
  next
    case (Some c)
    from find_SomeD[OF Some] have c: "c \<in> set fl" "req \<le> hdr_payload (mem s) c" by auto
    from big_fl_block[OF big c(1)] obtain p where cp: "(c, p) \<in> set bl" ..
    then obtain xs ys where bl: "bl = xs @ (c, p) # ys" by (auto dest: split_list)
    have p: "hdr_payload (mem s) c = p" using layout_bounds(7)[OF big_layout[OF big] cp] .
    have c0: "c \<noteq> NULL" using big_fl_bounds[OF big c(1)] by simp
    from big_take_block[OF big[unfolded bl] c(1) req] c(2) p
    have "big (remove_block
                 (if size_t_add req MIN_BLOCK_SIZE \<le> hdr_payload (mem s) c
                  then partition_block s c (hdr_payload (mem s) c) req else s) c)
             (if req + 24 \<le> p then xs @ (c, req) # (c + req + 8, p - req - 8) # ys
              else xs @ (c, p) # ys)
             (if req + 24 \<le> p then (c + req + 8) # remove1 c fl else remove1 c fl)" by simp
    then show ?thesis using scan Some c c0 bl p unfolding find_fit_def
      by (intro disjI2 exI[of _ c] exI[of _ p] exI[of _ xs] exI[of _ ys]) simp
  qed
qed

lemma aligned_size_ge: "16 \<le> aligned_size cfg n"
  by (simp add: aligned_size_def)

lemma mymalloc_eq:
  "mymalloc cfg s n =
     (if n > MAX_REQUEST_SIZE cfg \<or> n = 0 then Some (NULL, s)
      else case find_fit s (aligned_size cfg n) of
             None \<Rightarrow> None
           | Some (block, s') \<Rightarrow> Some (if block \<noteq> NULL then block + 8 else NULL, s'))"
  by (auto simp: mymalloc_def aligned_size_def Let_def get_payload_ptr_def split: option.splits)

lemma big_distinct: "big s bl fl \<Longrightarrow> distinct (map fst bl)"
  using contig_distinct[of "segment_start s" "segment_end s" bl]
  by (simp add: big_def layout_def wf_blocks_def)

lemma mymalloc_big:
  assumes big: "big s bl fl" and al: "aligned_blocks A bl" and A: "A dvd 8"
    "A dvd aligned_size cfg n"
  shows "\<exists>r s' bl' fl'. mymalloc cfg s n = Some (r, s') \<and> big s' bl' fl' \<and> aligned_blocks A bl' \<and>
    (\<forall>z t. (z, t) \<in> set bl \<and> z \<notin> set fl \<longrightarrow> (z, t) \<in> set bl' \<and> z \<notin> set fl') \<and>
    (r = NULL \<longrightarrow> s' = s) \<and>
    (r \<noteq> NULL \<longrightarrow> 8 \<le> r \<and> r - 8 \<in> set fl \<and> r - 8 \<notin> set fl' \<and>
       (\<exists>t. (r - 8, t) \<in> set bl' \<and> aligned_size cfg n \<le> t))"
proof (cases "n > MAX_REQUEST_SIZE cfg \<or> n = 0")
  case True
  then have "mymalloc cfg s n = Some (NULL, s)" by (simp add: mymalloc_eq)
  then show ?thesis using big al by auto
next
  case False
  let ?req = "aligned_size cfg n"
  from find_fit_big[OF big aligned_size_ge, of cfg n]
  consider "find_fit s ?req = Some (NULL, s)"
    | c p xs ys s' where "find_fit s ?req = Some (c, s')" "c \<noteq> NULL" "c \<in> set fl"
        "bl = xs @ (c, p) # ys" "?req \<le> p"
       "big s' (if ?req + 24 \<le> p then xs @ (c, ?req) # (c + ?req + 8, p - ?req - 8) # ys
              else xs @ (c, p) # ys)
             (if ?req + 24 \<le> p then (c + ?req + 8) # remove1 c fl else remove1 c fl)"
    by blast
  then show ?thesis
  proof cases
    case 1
    then have "mymalloc cfg s n = Some (NULL, s)" using False by (simp add: mymalloc_eq)
    then show ?thesis using big al by auto
  next
    case 2
    define bl' where "bl' = (if ?req + 24 \<le> p then xs @ (c, ?req) # (c + ?req + 8, p - ?req - 8) # ys
              else xs @ (c, p) # ys)"
    define fl' where "fl' = (if ?req + 24 \<le> p then (c + ?req + 8) # remove1 c fl else remove1 c fl)"
    have b': "big s' bl' fl'" using 2(6) by (simp add: bl'_def fl'_def)
    have m: "mymalloc cfg s n = Some (c + 8, s')" using 2(1,2) False by (simp add: mymalloc_eq)
    have d: "distinct fl" using big_flist[OF big] by simp
    have d': "distinct (map fst bl')" using big_distinct[OF b'] .
    have al': "aligned_blocks A bl'"
      using al A 2(4,5) by (auto simp: aligned_blocks_def bl'_def)
    have keep: "(z, t) \<in> set bl' \<and> z \<notin> set fl'" if "(z, t) \<in> set bl" "z \<notin> set fl" for z t
    proof -
      have zc: "z \<noteq> c" using that 2(3) by auto
      then have z: "(z, t) \<in> set xs \<union> set ys" using that 2(4) by auto
      then have 1: "(z, t) \<in> set bl'" by (auto simp: bl'_def)
      have "z \<noteq> c + ?req + 8" if "?req + 24 \<le> p"
      proof -
        have "c + ?req + 8 \<notin> fst ` (set xs \<union> set ys)" using d' that by (auto simp: bl'_def)
        then show ?thesis using z by force
      qed
      then have "z \<notin> set fl'" using that(2) by (auto simp: fl'_def dest: notin_set_remove1)
      with 1 show ?thesis by simp
    qed
    have c': "c + 8 - 8 \<notin> set fl'"
    proof -
      have "c \<noteq> c + ?req + 8" by simp
      then show ?thesis using d by (auto simp: fl'_def)
    qed
    have ct: "\<exists>t. (c + 8 - 8, t) \<in> set bl' \<and> ?req \<le> t" using 2(5) by (auto simp: bl'_def)
    have c8: "c + 8 \<noteq> NULL" "8 \<le> c + 8" "c + 8 - 8 \<in> set fl" using 2(3) by auto
    show ?thesis using m b' al' keep c' ct c8
      by (intro exI[of _ "c + 8"] exI[of _ s'] exI[of _ bl'] exI[of _ fl']) blast
  qed
qed

lemma myrealloc_eq:
  "p \<noteq> NULL \<Longrightarrow> n \<noteq> 0 \<Longrightarrow>
   myrealloc cfg s p n =
     (let b = p - 8; q = hdr_payload (mem s) b; t = aligned_size cfg n;
          ms = size_t_add t MIN_BLOCK_SIZE
      in if q = t then Some (p, s)
         else if t < q \<and> q < ms then Some (p, s)
         else if t < q \<and> ms \<le> q then Some (p, partition_block s b q t)
         else if q < t then
           (let s1 = coalesce_right s b; q' = hdr_payload (mem s1) b
            in if t \<le> q' then Some (p, if ms \<le> q' then partition_block s1 b q' t else s1)
               else case mymalloc cfg s1 n of
                      None \<Rightarrow> None
                    | Some (r, s2) \<Rightarrow>
                        if r \<noteq> NULL
                        then Some (r, myfree (s2\<lparr>mem := memcpy (mem s2) r p q\<rparr>) p)
                        else Some (NULL, s2))
         else Some (NULL, s))"
  by (simp add: myrealloc_def aligned_size_def Let_def)

lemma partition_aligned:
  "aligned_blocks A (xs @ (b, q) # ys) \<Longrightarrow> A dvd 8 \<Longrightarrow> A dvd t \<Longrightarrow> t + 24 \<le> q
     \<Longrightarrow> aligned_blocks A (xs @ (b, t) # (b + t + 8, q - t - 8) # ys)"
  by (auto simp: aligned_blocks_def)

lemma coalesce_right_big:
  assumes big: "big s (xs @ (b, q) # ys) fl" and ab: "absorb fl q ys = (q', ys', fl')"
  shows "big (coalesce_right s b) (xs @ (b, q') # ys') fl'"
    and "hdr_payload (mem (coalesce_right s b)) b = q'"
proof -
  show 1: "big (coalesce_right s b) (xs @ (b, q') # ys') fl'"
    using coalesce_loop_big[OF big ab] coalesce_right_eq[OF big] by simp
  show "hdr_payload (mem (coalesce_right s b)) b = q'"
  proof -
    have "(b, q') \<in> set (xs @ (b, q') # ys')" by simp
    from layout_bounds(7)[OF big_layout[OF 1] this] show ?thesis .
  qed
qed

lemma myrealloc_big:
  assumes big: "big s (xs @ (b, q) # ys) fl" and b: "b \<notin> set fl"
    and al: "aligned_blocks A (xs @ (b, q) # ys)" and A: "A dvd 8" "A dvd aligned_size cfg n"
    and n: "n \<noteq> 0"
  shows "\<exists>r s' bl' fl'. myrealloc cfg s (b + 8) n = Some (r, s') \<and> big s' bl' fl' \<and>
           aligned_blocks A bl'"
proof -
  let ?bl = "xs @ (b, q) # ys"
  let ?t = "aligned_size cfg n"
  have bq: "(b, q) \<in> set ?bl" by simp
  note bb = layout_bounds[OF big_layout[OF big] bq]
  have t16: "16 \<le> ?t" by (rule aligned_size_ge)
  have q: "hdr_payload (mem s) (b + 8 - 8) = q" using bb(7) by simp
  note eq = myrealloc_eq[of "b + 8" n cfg s, simplified Let_def q, OF _ n]
  consider "q = ?t \<or> (?t < q \<and> q < size_t_add ?t 24)" | "?t < q" "size_t_add ?t 24 \<le> q" | "q < ?t"
    by linarith
  then show ?thesis
  proof cases
    case 1
    then have "myrealloc cfg s (b + 8) n = Some (b + 8, s)" using eq by auto
    then show ?thesis using big al by blast
  next
    case 2
    have sa: "size_t_add ?t 24 = ?t + 24" using 2(1) bb(3) by (simp add: size_t_add_exact)
    have "myrealloc cfg s (b + 8) n = Some (b + 8, partition_block s b q ?t)" using eq 2 by auto
    moreover have "big (partition_block s b q ?t)
        (xs @ (b, ?t) # (b + ?t + 8, q - ?t - 8) # ys) ((b + ?t + 8) # fl)"
      using big_partition[OF big t16] 2(2) sa by simp
    moreover have "aligned_blocks A (xs @ (b, ?t) # (b + ?t + 8, q - ?t - 8) # ys)"
      using partition_aligned[OF al A] 2(2) sa by simp
    ultimately show ?thesis by blast
  next
    case 3
    obtain q' ys' fl' where ab: "absorb fl q ys = (q', ys', fl')" by (cases "absorb fl q ys") auto
    let ?s1 = "coalesce_right s b"
    let ?bl1 = "xs @ (b, q') # ys'"
    note big1 = coalesce_right_big(1)[OF big ab] and q1 = coalesce_right_big(2)[OF big ab]
    have bq1: "(b, q') \<in> set ?bl1" by simp
    note bb1 = layout_bounds[OF big_layout[OF big1] bq1]
    have bfl': "b \<notin> set fl'" and qq': "q \<le> q'" using absorb_props[OF ab] b by auto
    have "A dvd q" "aligned_blocks A ys" "aligned_blocks A xs"
      using al by (auto simp: aligned_blocks_def)
    from absorb_aligned[OF ab A(1) this(1,2)] this(3)
    have al1: "aligned_blocks A ?bl1" by (auto simp: aligned_blocks_def)
    show ?thesis
    proof (cases "?t \<le> q'")
      case True
      have sa: "size_t_add ?t 24 = ?t + 24" using True bb1(3) by (simp add: size_t_add_exact)
      show ?thesis
      proof (cases "?t + 24 \<le> q'")
        case True
        have "myrealloc cfg s (b + 8) n = Some (b + 8, partition_block ?s1 b q' ?t)"
          using eq 3 q1 True sa by auto
        moreover have "big (partition_block ?s1 b q' ?t)
          (xs @ (b, ?t) # (b + ?t + 8, q' - ?t - 8) # ys') ((b + ?t + 8) # fl')"
          using big_partition[OF big1 t16 True] .
        moreover have "aligned_blocks A (xs @ (b, ?t) # (b + ?t + 8, q' - ?t - 8) # ys')"
          using partition_aligned[OF al1 A True] .
        ultimately show ?thesis by blast
      next
        case False
        have "myrealloc cfg s (b + 8) n = Some (b + 8, ?s1)"
          using eq 3 q1 \<open>?t \<le> q'\<close> False sa by auto
        then show ?thesis using big1 al1 by blast
      qed
    next
      case False
      from mymalloc_big[OF big1 al1 A] obtain r s2 bl2 fl2 where
        m: "mymalloc cfg ?s1 n = Some (r, s2)" and big2: "big s2 bl2 fl2"
        and al2: "aligned_blocks A bl2"
        and keep: "\<And>z t. (z, t) \<in> set ?bl1 \<Longrightarrow> z \<notin> set fl' \<Longrightarrow> (z, t) \<in> set bl2 \<and> z \<notin> set fl2"
        and r0: "r = NULL \<Longrightarrow> s2 = ?s1"
        and r1: "r \<noteq> NULL \<Longrightarrow> 8 \<le> r \<and> r - 8 \<notin> set fl2 \<and> (\<exists>t. (r - 8, t) \<in> set bl2 \<and> ?t \<le> t)"
        by blast
      show ?thesis
      proof (cases "r = NULL")
        case True
        have "myrealloc cfg s (b + 8) n = Some (NULL, s2)"
          using eq 3 q1 False m True by auto
        then show ?thesis using big2 al2 by blast
      next
        case rn: False
        let ?s3 = "s2\<lparr>mem := memcpy (mem s2) r (b + 8) q\<rparr>"
        have re: "myrealloc cfg s (b + 8) n = Some (r, myfree ?s3 (b + 8))"
          using eq 3 q1 False m rn by auto
        from r1[OF rn] obtain t where t: "8 \<le> r" "r - 8 \<notin> set fl2" "(r - 8, t) \<in> set bl2" "?t \<le> t"
          by blast
        have big3: "big ?s3 bl2 fl2"
        proof (rule big_data_write[OF big2])
          fix x assume "memcpy (mem s2) r (b + 8) q x \<noteq> mem s2 x"
          then have "r \<le> x" "x < r + q" by (auto simp: memcpy_def split: if_splits)
          then have "r - 8 + 8 \<le> x \<and> x < r - 8 + 8 + t" using t False qq' by simp
          then show "\<exists>(b, p)\<in>set bl2. b \<notin> set fl2 \<and> b + 8 \<le> x \<and> x < b + 8 + p"
            using t(2,3) by blast
        qed
        from keep[OF bq1 bfl'] have k: "(b, q') \<in> set bl2" "b \<notin> set fl2" by auto
        then obtain us vs where bl2: "bl2 = us @ (b, q') # vs" by (auto dest: split_list)
        obtain q3 vs3 fl3 where ab3: "absorb fl2 q' vs = (q3, vs3, fl3)"
          by (cases "absorb fl2 q' vs") auto
        from myfree_big[OF big3[unfolded bl2] k(2) ab3]
        have big4: "big (myfree ?s3 (b + 8)) (us @ (b, q3) # vs3) (b # fl3)" .
        have "A dvd q'" "aligned_blocks A vs" "aligned_blocks A us"
          using al2 bl2 by (auto simp: aligned_blocks_def)
        from absorb_aligned[OF ab3 A(1) this(1,2)] this(3)
        have "aligned_blocks A (us @ (b, q3) # vs3)" by (auto simp: aligned_blocks_def)
        with re big4 show ?thesis by blast
      qed
    qed
  qed
qed

section \<open>Reachable heap states\<close>

lemma walk_contig:
  "contig a e bl \<Longrightarrow> (\<And>b p. (b, p) \<in> set bl \<Longrightarrow> hdr_payload m b = p)
     \<Longrightarrow> heap_walk m a e = map fst bl \<and> walk_end m a e = e"
proof (induction a e bl rule: contig.induct)
  case (1 a e)
  then show ?case by (simp add: heap_walk.simps walk_end.simps)
next
  case (2 a e b p bl)
  then have ba: "b = a" and c: "contig (a + 8 + p) e bl" and p: "hdr_payload m a = p" by auto
  from contig_le[OF c] have lt: "a < e" by simp
  have ih: "heap_walk m (a + 8 + p) e = map fst bl \<and> walk_end m (a + 8 + p) e = e"
    using 2 by auto
  have e: "a + p + 8 = a + 8 + p" by simp
  have "heap_walk m a e = a # heap_walk m (a + 8 + p) e"
    using lt p by (subst heap_walk.simps) (simp only: e if_True)
  moreover have "walk_end m a e = walk_end m (a + 8 + p) e"
    using lt p by (subst walk_end.simps) (simp only: e if_True)
  ultimately show ?case using ih ba by simp
qed

lemma big_walk:
  assumes "big s bl fl"
  shows "heap_blocks s = map fst bl" "walk_end (mem s) (segment_start s) (segment_end s) = segment_end s"
proof -
  have "contig (segment_start s) (segment_end s) bl"
    using assms by (simp add: big_def layout_def wf_blocks_def)
  from walk_contig[OF this, of "mem s"] layout_bounds(7)[OF big_layout[OF assms]]
  show "heap_blocks s = map fst bl"
    "walk_end (mem s) (segment_start s) (segment_end s) = segment_end s"
    by (auto simp: heap_blocks_def)
qed

lemma big_valid_ptr:
  assumes "big s bl fl"
  shows "valid_ptr s p = (\<exists>b q. p = b + 8 \<and> (b, q) \<in> set bl \<and> b \<notin> set fl)"
proof
  assume "valid_ptr s p"
  then have p: "8 \<le> p" "p - 8 \<in> fst ` set bl" "hdr_allocated (mem s) (p - 8) \<noteq> 0"
    using big_walk(1)[OF assms] by (auto simp: valid_ptr_def)
  then obtain q where q: "(p - 8, q) \<in> set bl" by auto
  with big_flag[OF assms this] p show "\<exists>b q. p = b + 8 \<and> (b, q) \<in> set bl \<and> b \<notin> set fl"
    by (intro exI[of _ "p - 8"] exI[of _ q]) simp
next
  assume "\<exists>b q. p = b + 8 \<and> (b, q) \<in> set bl \<and> b \<notin> set fl"
  then obtain b q where "p = b + 8" "(b, q) \<in> set bl" "b \<notin> set fl" by blast
  then show "valid_ptr s p" using big_walk(1)[OF assms] big_flag[OF assms, of b q]
    by (force simp: valid_ptr_def)
qed

lemma small_walk:
  assumes "small s"
  shows "heap_blocks s = [segment_start s]"
    "walk_end (mem s) (segment_start s) (segment_end s) = segment_end s"
    "is_free_list (mem s) (free_list_start s) [segment_start s]"
proof -
  let ?a = "segment_start s" and ?p = "hdr_payload (mem s) (segment_start s)"
  have "contig ?a (segment_end s) [(?a, ?p)]" using assms by (simp add: small_def)
  from walk_contig[OF this, of "mem s"]
  show "heap_blocks s = [segment_start s]"
    "walk_end (mem s) (segment_start s) (segment_end s) = segment_end s"
    by (auto simp: heap_blocks_def)
  show "is_free_list (mem s) (free_list_start s) [segment_start s]"
    using assms by (simp add: small_def)
qed

lemma small_valid_ptr: "small s \<Longrightarrow> \<not> valid_ptr s p"
  using small_walk(1)[of s] by (auto simp: valid_ptr_def small_def)

lemma small_find_fit: "small s \<Longrightarrow> 16 \<le> req \<Longrightarrow> find_fit s req = Some (NULL, s)"
  using find_fit_loop_scan[OF small_walk(3), of s req]
  by (simp add: find_fit_def small_def)

lemma small_mymalloc: "small s \<Longrightarrow> mymalloc cfg s n = Some (NULL, s)"
  by (simp add: mymalloc_eq small_find_fit aligned_size_ge)

lemma myinit_fields:
  assumes "8 < n" "n < 2 ^ 64"
  shows "fst (myinit s0 a n) = True"
    and "segment_start (snd (myinit s0 a n)) = a"
    and "segment_end (snd (myinit s0 a n)) = a + n"
    and "segment_size (snd (myinit s0 a n)) = n"
    and "free_list_start (snd (myinit s0 a n)) = a"
    and "hdr_payload (mem (snd (myinit s0 a n))) a = (n - 8) mod 2 ^ 32"
    and "hdr_allocated (mem (snd (myinit s0 a n))) a = 0"
    and "get_previous (mem (snd (myinit s0 a n))) a = NULL"
    and "get_next (mem (snd (myinit s0 a n))) a = NULL"
proof -
  have st: "store64 (store64 m (get_payload_ptr a) NULL) (get_payload_ptr a + 8) NULL
      = set_next (set_previous m a NULL) a NULL" for m
    by (simp add: set_previous_def set_next_def)
  have sub: "size_t_sub n 8 = n - 8" using assms by (simp add: size_t_sub_exact)
  have eq: "myinit s0 a n = (True, s0\<lparr>segment_start := a, segment_end := a + n, segment_size := n,
      free_list_start := a,
      mem := set_next (set_previous (set_allocated (set_payload (mem s0) a ((n - 8) mod 2 ^ 32)) a 0)
        a NULL) a NULL\<rparr>)"
    using assms(1) by (simp add: myinit_def Let_def st sub)
  show "fst (myinit s0 a n) = True"
    "segment_start (snd (myinit s0 a n)) = a"
    "segment_end (snd (myinit s0 a n)) = a + n"
    "segment_size (snd (myinit s0 a n)) = n"
    "free_list_start (snd (myinit s0 a n)) = a"
    "hdr_payload (mem (snd (myinit s0 a n))) a = (n - 8) mod 2 ^ 32"
    "hdr_allocated (mem (snd (myinit s0 a n))) a = 0"
    "get_previous (mem (snd (myinit s0 a n))) a = NULL"
    "get_next (mem (snd (myinit s0 a n))) a = NULL"
    unfolding eq by simp_all
qed

lemma myinit_big:
  assumes r: "valid_region a n" and n: "24 \<le> n" "n < 2 ^ 32 + 8"
  shows "big (snd (myinit s0 a n)) [(a, n - 8)] [a]"
proof -
  let ?s = "snd (myinit s0 a n)"
  have n': "8 < n" "n < 2 ^ 64" "(n - 8) mod 2 ^ 32 = n - 8" using n by auto
  note f = myinit_fields[OF n'(1,2), of s0 a, unfolded n'(3)]
  have L: "layout ?s [(a, n - 8)]"
    using r n f by (auto simp: layout_def wf_blocks_def valid_region_def)
  show ?thesis
  proof (rule bigI[OF L])
    show "seg (mem ?s) NULL (free_list_start ?s) [a] NULL"
      using f r by (simp add: valid_region_def)
  qed (use f in auto)
qed

lemma myinit_small:
  assumes r: "valid_region a n" and n: "8 < n" "n < 24"
  shows "small (snd (myinit s0 a n))"
proof -
  have n': "8 < n" "n < 2 ^ 64" "(n - 8) mod 2 ^ 32 = n - 8" using n by auto
  note f = myinit_fields[OF n'(1,2), of s0 a, unfolded n'(3)]
  show ?thesis using f r n by (simp add: small_def valid_region_def)
qed

lemma myinit_inv:
  assumes r: "valid_region a n" and n: "n < 2 ^ 32 + 8" and ok: "myinit st a n = (True, s0)"
    and A: "A dvd n - 8 \<or> n < 24"
  shows "heap_inv A (n < 24) s0"
proof -
  have n8: "8 < n" using ok by (auto simp: myinit_def split: if_splits)
  have s0: "s0 = snd (myinit st a n)" using ok by simp
  show ?thesis
  proof (cases "n < 24")
    case True
    then show ?thesis using myinit_small[OF r n8] s0 by (simp add: heap_inv_def)
  next
    case False
    then have "big s0 [(a, n - 8)] [a]" using myinit_big[OF r _ n] s0 by simp
    moreover have "aligned_blocks A [(a, n - 8)]" using A False by (simp add: aligned_blocks_def)
    ultimately show ?thesis unfolding heap_inv_def by blast
  qed
qed

lemma inv_mymalloc:
  assumes "heap_inv A sm s" "A dvd 8" "A dvd aligned_size cfg n"
  shows "\<exists>p s'. mymalloc cfg s n = Some (p, s') \<and> heap_inv A sm s'"
proof (cases "sm \<and> small s")
  case False
  then obtain bl fl where "big s bl fl" "aligned_blocks A bl"
    using assms(1) by (auto simp: heap_inv_def)
  from mymalloc_big[OF this assms(2,3)] show ?thesis unfolding heap_inv_def by blast
next
  case True
  then show ?thesis using small_mymalloc[of s cfg n] by (auto simp: heap_inv_def)
qed

lemma inv_myfree:
  assumes "heap_inv A sm s" "A dvd 8" "p = NULL \<or> valid_ptr s p"
  shows "heap_inv A sm (myfree s p)"
proof (cases "p = NULL")
  case True
  then show ?thesis using assms(1) by (simp add: myfree_def)
next
  case False
  then have vp: "valid_ptr s p" using assms(3) by simp
  then have "\<not> small s" using small_valid_ptr by blast
  then obtain bl fl where big: "big s bl fl" and al: "aligned_blocks A bl"
    using assms(1) by (auto simp: heap_inv_def)
  from vp big_valid_ptr[OF big] obtain b q where b: "p = b + 8" "(b, q) \<in> set bl" "b \<notin> set fl"
    by blast
  then obtain xs ys where bl: "bl = xs @ (b, q) # ys" by (auto dest: split_list)
  obtain q' ys' fl' where ab: "absorb fl q ys = (q', ys', fl')" by (cases "absorb fl q ys") auto
  from myfree_big[OF big[unfolded bl] b(3) ab]
  have 1: "big (myfree s p) (xs @ (b, q') # ys') (b # fl')" using b(1) by simp
  have "A dvd q" "aligned_blocks A ys" "aligned_blocks A xs"
    using al bl by (auto simp: aligned_blocks_def)
  from absorb_aligned[OF ab assms(2) this(1,2)] this(3)
  have "aligned_blocks A (xs @ (b, q') # ys')" by (auto simp: aligned_blocks_def)
  with 1 show ?thesis unfolding heap_inv_def by blast
qed

lemma inv_myrealloc:
  assumes "heap_inv A sm s" "A dvd 8" "A dvd aligned_size cfg n" "p = NULL \<or> valid_ptr s p"
  shows "\<exists>r s'. myrealloc cfg s p n = Some (r, s') \<and> heap_inv A sm s'"
proof (cases "p = NULL \<or> n = 0")
  case True
  then have "myrealloc cfg s p n = mymalloc cfg s n" by (simp add: myrealloc_def)
  then show ?thesis using inv_mymalloc[OF assms(1,2,3)] by simp
next
  case False
  then have vp: "valid_ptr s p" and n: "n \<noteq> 0" using assms(4) by auto
  then have "\<not> small s" using small_valid_ptr by blast
  then obtain bl fl where big: "big s bl fl" and al: "aligned_blocks A bl"
    using assms(1) by (auto simp: heap_inv_def)
  from vp big_valid_ptr[OF big] obtain b q where b: "p = b + 8" "(b, q) \<in> set bl" "b \<notin> set fl"
    by blast
  then obtain xs ys where bl: "bl = xs @ (b, q) # ys" by (auto dest: split_list)
  from myrealloc_big[OF big[unfolded bl] b(3) al[unfolded bl] assms(2,3) n]
  show ?thesis unfolding heap_inv_def b(1) by blast
qed

lemma inv_write:
  assumes "heap_inv A sm s" "valid_ptr s p" "i < hdr_payload (mem s) (p - 8)"
  shows "heap_inv A sm (s\<lparr>mem := (mem s)(p + i := v)\<rparr>)"
proof -
  have "\<not> small s" using assms(2) small_valid_ptr by blast
  then obtain bl fl where big: "big s bl fl" and al: "aligned_blocks A bl"
    using assms(1) by (auto simp: heap_inv_def)
  from assms(2) big_valid_ptr[OF big] obtain b q where b: "p = b + 8" "(b, q) \<in> set bl" "b \<notin> set fl"
    by blast
  have q: "hdr_payload (mem s) b = q" using layout_bounds(7)[OF big_layout[OF big] b(2)] .
  have "big (s\<lparr>mem := (mem s)(p + i := v)\<rparr>) bl fl"
  proof (rule big_data_write[OF big])
    fix x assume "((mem s)(p + i := v)) x \<noteq> mem s x"
    then have "x = p + i" by (auto split: if_splits)
    then have "b + 8 \<le> x \<and> x < b + 8 + q" using assms(3) b(1) q by simp
    then show "\<exists>(b, p)\<in>set bl. b \<notin> set fl \<and> b + 8 \<le> x \<and> x < b + 8 + p" using b by blast
  qed
  with al show ?thesis unfolding heap_inv_def by blast
qed

lemma reachable_inv:
  assumes "reachable cfg s0 s" "heap_inv A sm s0" "A dvd 8" "\<And>n. A dvd aligned_size cfg n"
  shows "heap_inv A sm s"
  using assms(1)
proof (induction rule: reachable.induct)
  case r_init
  then show ?case by fact
next
  case (r_malloc s n p s')
  from inv_mymalloc[OF r_malloc.IH assms(3) assms(4)[of n]] r_malloc.hyps(2) show ?case by auto
next
  case (r_free s p)
  from inv_myfree[OF r_free.IH assms(3) r_free.hyps(2)] show ?case .
next
  case (r_realloc s p n q s')
  from inv_myrealloc[OF r_realloc.IH assms(3) assms(4)[of n] r_realloc.hyps(2)] r_realloc.hyps(3)
  show ?case by auto
next
  case (r_write s p i v)
  from inv_write[OF r_write.IH r_write.hyps(2,3)] show ?case .
qed

section \<open>Rounding up to the alignment\<close>

lemma and_not_mask_shift: "(x :: 64 word) AND NOT (mask k) = push_bit k (drop_bit k x)"
  by (rule bit_word_eqI) (auto simp: bit_simps)

lemma word_pow_minus_1: "(word_of_nat (2 ^ k) :: 64 word) - 1 = mask k"
  by (simp add: mask_eq_decr_exp)

lemma align_pow2:
  assumes "k < 64"
  shows "align n (2 ^ k) = ((n + 2 ^ k - 1) mod 2 ^ 64) div 2 ^ k * 2 ^ k"
proof -
  let ?x = "(word_of_nat n :: 64 word) + mask k"
  have m: "(mask k :: 64 word) = word_of_nat (2 ^ k - 1)"
    by (simp add: mask_eq_decr_exp of_nat_diff)
  have "?x = word_of_nat (n + (2 ^ k - 1))" by (simp only: of_nat_add m)
  then have "unat ?x = (n + (2 ^ k - 1)) mod 2 ^ 64"
    by (simp only: unat_of_nat) simp
  moreover have "n + (2 ^ k - 1) = n + 2 ^ k - (1 :: nat)" by simp
  ultimately have ux: "unat ?x = (n + 2 ^ k - 1) mod 2 ^ 64" by simp
  have "align n (2 ^ k) = unat (push_bit k (drop_bit k ?x))"
    by (simp add: align_def mask_eq_decr_exp[symmetric] and_not_mask_shift)
  also have "\<dots> = take_bit 64 (push_bit k (drop_bit k (unat ?x)))"
    by (simp add: unsigned_push_bit_eq unat_drop_bit_eq)
  also have "\<dots> = (unat ?x div 2 ^ k * 2 ^ k) mod 2 ^ 64"
    by (simp add: take_bit_eq_mod push_bit_eq_mult drop_bit_eq_div)
  also have "\<dots> = unat ?x div 2 ^ k * 2 ^ k"
  proof (rule mod_less)
    have "unat ?x div 2 ^ k * 2 ^ k \<le> unat ?x" by (simp add: div_times_less_eq_dividend)
    also have "unat ?x < 2 ^ 64" using unsigned_less[of ?x] by simp
    finally show "unat ?x div 2 ^ k * 2 ^ k < 2 ^ 64" .
  qed
  finally show ?thesis unfolding ux .
qed

lemma align_dvd: "k < 64 \<Longrightarrow> 2 ^ k dvd align n (2 ^ k)"
  by (simp add: align_pow2)

lemma align_round_up:
  assumes "k < 64" "n + 2 ^ k \<le> 2 ^ 64"
  shows "align n (2 ^ k) = (n + 2 ^ k - 1) div 2 ^ k * 2 ^ k"
proof -
  have "n + 2 ^ k - 1 < (2 :: nat) ^ 64" using assms(2) by simp
  then show ?thesis using align_pow2[OF assms(1), of n] by simp
qed

lemma aligned_size_dvd:
  assumes "ALIGNMENT cfg = 2 ^ k" "k \<le> 3"
  shows "ALIGNMENT cfg dvd aligned_size cfg n"
proof -
  have "(2 :: nat) ^ k dvd 2 ^ 4" using assms(2) by (intro le_imp_power_dvd) simp
  then have "ALIGNMENT cfg dvd 16" using assms(1) by simp
  moreover have "ALIGNMENT cfg dvd align n (ALIGNMENT cfg)"
    using align_dvd[of k n] assms by simp
  ultimately show ?thesis by (simp add: aligned_size_def)
qed

lemma aligned_size_round_up:
  assumes "ALIGNMENT cfg = 2 ^ k" and "n \<noteq> 0" and "n + ALIGNMENT cfg \<le> 2 ^ 64"
  shows "aligned_size cfg n
           = max MIN_PAYLOAD_SIZE ((n + ALIGNMENT cfg - 1) div ALIGNMENT cfg * ALIGNMENT cfg)"
proof -
  have "(2 :: nat) ^ k < 2 ^ 64" using assms by simp
  then have k: "k < 64" using power_less_imp_less_exp[of 2 k 64] by simp
  have "n + 2 ^ k \<le> 2 ^ 64" using assms by simp
  from align_round_up[OF k this]
  have al: "align n (ALIGNMENT cfg) = (n + ALIGNMENT cfg - 1) div ALIGNMENT cfg * ALIGNMENT cfg"
    using assms(1) by simp
  show ?thesis unfolding aligned_size_def al by (simp add: max_def)
qed

section \<open>Heap states\<close>

lemma heap_stateI:
  "valid_region a n \<Longrightarrow> n < 2 ^ 32 + 8 \<Longrightarrow> myinit st a n = (True, s0) \<Longrightarrow> reachable cfg s0 s
     \<Longrightarrow> heap_state cfg s"
  unfolding heap_state_def by blast

lemma aligned_blocks_1 [simp]: "aligned_blocks (Suc 0) bl"
  by (auto simp: aligned_blocks_def)

lemma heap_state_inv: "heap_state cfg s \<Longrightarrow> heap_inv 1 True s"
proof -
  assume "heap_state cfg s"
  then obtain st a n s0 where h: "valid_region a n" "n < 2 ^ 32 + 8" "myinit st a n = (True, s0)"
    "reachable cfg s0 s" unfolding heap_state_def by blast
  have "heap_inv 1 (n < 24) s0" using myinit_inv[OF h(1,2,3), of 1] by simp
  from reachable_inv[OF h(4) this] show ?thesis by (auto simp: heap_inv_def)
qed

lemma heap_state_big:
  assumes "heap_state cfg s" "valid_ptr s p"
  shows "\<exists>xs b q ys fl. p = b + 8 \<and> big s (xs @ (b, q) # ys) fl \<and> b \<notin> set fl"
proof -
  have "\<not> small s" using assms(2) small_valid_ptr by blast
  with heap_state_inv[OF assms(1)] obtain bl fl where big: "big s bl fl"
    by (auto simp: heap_inv_def)
  from assms(2) big_valid_ptr[OF big] obtain b q where b: "p = b + 8" "(b, q) \<in> set bl" "b \<notin> set fl"
    by blast
  then obtain xs ys where "bl = xs @ (b, q) # ys" by (auto dest: split_list)
  with big b show ?thesis by blast
qed

text \<open>
  On a heap state the scan of the free list ends: \<^verbatim>\<open>mymalloc\<close> returns, and so does
  \<^verbatim>\<open>myrealloc\<close> on \<^verbatim>\<open>NULL\<close> or on an allocated payload reference.
\<close>

lemma heap_state_returns:
  assumes "heap_state cfg s"
  shows "\<exists>r s'. mymalloc cfg s n = Some (r, s') \<and> heap_state cfg s'"
    and "p = NULL \<or> valid_ptr s p \<Longrightarrow> \<exists>r s'. myrealloc cfg s p n = Some (r, s') \<and> heap_state cfg s'"
proof -
  note inv = heap_state_inv[OF assms]
  from inv_mymalloc[OF inv, of cfg n] obtain r s' where m: "mymalloc cfg s n = Some (r, s')"
    by auto
  from assms obtain st a k s0 where h: "valid_region a k" "k < 2 ^ 32 + 8"
    "myinit st a k = (True, s0)" "reachable cfg s0 s" unfolding heap_state_def by blast
  show "\<exists>r s'. mymalloc cfg s n = Some (r, s') \<and> heap_state cfg s'"
    using m heap_stateI[OF h(1,2,3) r_malloc[OF h(4) m]] by blast
  assume p: "p = NULL \<or> valid_ptr s p"
  from inv_myrealloc[OF inv _ _ p, of cfg n] obtain r s' where
    r: "myrealloc cfg s p n = Some (r, s')" by auto
  show "\<exists>r s'. myrealloc cfg s p n = Some (r, s') \<and> heap_state cfg s'"
    using r heap_stateI[OF h(1,2,3) r_realloc[OF h(4) p r]] by blast
qed

lemma mem0_fields [simp]:
  "hdr_payload mem0 b = 0" "hdr_allocated mem0 b = 0" "get_previous mem0 b = 0" "get_next mem0 b = 0"
  by (simp_all add: field_defs load32_def load64_def mem0_def)

lemma myinit_eq:
  assumes "8 < n" "n < 2 ^ 64"
  shows "myinit s0 a n = (True, s0\<lparr>segment_start := a, segment_end := a + n, segment_size := n,
      free_list_start := a,
      mem := set_next (set_previous (set_allocated (set_payload (mem s0) a ((n - 8) mod 2 ^ 32)) a 0)
        a NULL) a NULL\<rparr>)"
  using assms by (simp add: myinit_def Let_def set_previous_def set_next_def size_t_sub_exact)

lemma align_examples: "align 13 8 = 16" "align 16 8 = 16" "align 100 8 = 104"
  by (simp_all add: align_def)

lemmas run_defs = myinit_eq get_payload_ptr_def mymalloc_def myfree_def myrealloc_def find_fit_def
  coalesce_right_def partition_block_def add_block_def remove_block_def
  size_t_add_def size_t_sub_def far_def heap0_def cfg8_def Let_def align_examples
  find_fit_loop.simps coalesce_loop.simps

lemma ex72_reach: "heap_state cfg8 ex72"
proof (rule heap_stateI)
  show "valid_region 4096 72" by (simp add: valid_region_def)
  show "myinit heap0 4096 72 = (True, ex72)" by (simp add: ex72_def myinit_eq)
  show "reachable cfg8 ex72 ex72" by (rule r_init)
qed simp

lemma ex_a_run: "mymalloc cfg8 ex72 16 = Some (4104, ex_a)"
  unfolding ex_a_def ex72_def by (simp add: run_defs)

lemma ex_ab_run: "mymalloc cfg8 ex_a 16 = Some (4128, ex_ab)"
  unfolding ex_ab_def ex_a_def ex72_def by (simp add: run_defs)

lemma ex_abc_run: "mymalloc cfg8 ex_ab 16 = Some (4152, ex_abc)"
  unfolding ex_abc_def ex_ab_def ex_a_def ex72_def by (simp add: run_defs)

lemma heap_state_step:
  "heap_state cfg s \<Longrightarrow> mymalloc cfg s n = Some (p, s') \<Longrightarrow> heap_state cfg s'"
  "heap_state cfg s \<Longrightarrow> p = NULL \<or> valid_ptr s p \<Longrightarrow> heap_state cfg (myfree s p)"
  "heap_state cfg s \<Longrightarrow> p = NULL \<or> valid_ptr s p \<Longrightarrow> myrealloc cfg s p n = Some (q, s')
     \<Longrightarrow> heap_state cfg s'"
  unfolding heap_state_def by (blast intro: reachable.intros)+

lemma ex_abc_state: "heap_state cfg8 ex_a" "heap_state cfg8 ex_ab" "heap_state cfg8 ex_abc"
proof -
  show a: "heap_state cfg8 ex_a" using heap_state_step(1)[OF ex72_reach ex_a_run] .
  show b: "heap_state cfg8 ex_ab" using heap_state_step(1)[OF a ex_ab_run] .
  show "heap_state cfg8 ex_abc" using heap_state_step(1)[OF b ex_abc_run] .
qed

lemma ex_abc_blocks: "heap_blocks ex_abc = [4096, 4120, 4144]"
  unfolding heap_blocks_def ex_abc_def ex_ab_def ex_a_def ex72_def
  by (simp add: run_defs heap_walk.simps)

lemma ex_abc_fields:
  "hdr_payload (mem ex_abc) 4096 = 16" "hdr_payload (mem ex_abc) 4120 = 16"
  "hdr_payload (mem ex_abc) 4144 = 16"
  "hdr_allocated (mem ex_abc) 4096 = 1" "hdr_allocated (mem ex_abc) 4120 = 1"
  "hdr_allocated (mem ex_abc) 4144 = 1" "free_list_start ex_abc = NULL"
  "segment_start ex_abc = 4096" "segment_end ex_abc = 4168"
  unfolding ex_abc_def ex_ab_def ex_a_def ex72_def
  by (simp_all add: run_defs)

section \<open>Claims\<close>

text \<open>
  C10: for every payload reference \<open>p\<close>, \<open>myrealloc\<close> with a new size of zero returns
  \<open>NULL\<close> and leaves the whole heap state as it was: the block of \<open>p\<close> is not freed,
  moved or modified.  The call goes to \<open>mymalloc\<close> with size zero, which fails before it
  searches.
\<close>

theorem C10_realloc_zero: "myrealloc cfg s p 0 = Some (NULL, s)"
  by (simp add: myrealloc_def mymalloc_def)

text \<open>
  C9: \<open>mymalloc\<close> returns \<open>NULL\<close> and leaves the heap as it is, without calling the fit
  finder, when the requested size is zero or larger than \<open>MAX_REQUEST_SIZE\<close>.  For every
  other size it calls \<open>find_fit\<close> with the request rounded up to the next multiple of
  \<open>ALIGNMENT\<close>, or with \<open>MIN_PAYLOAD_SIZE\<close> if that is larger, and returns the payload
  pointer of the block found.  The configuration is one in which \<open>ALIGNMENT\<close> is a power of
  two and a request of at most \<open>MAX_REQUEST_SIZE\<close> can be rounded up within \<open>size_t\<close>.
\<close>

theorem C9_mymalloc_request:
  assumes "ALIGNMENT cfg = 2 ^ k" and "MAX_REQUEST_SIZE cfg + ALIGNMENT cfg \<le> 2 ^ 64"
  shows "mymalloc cfg s n =
    (if n = 0 \<or> MAX_REQUEST_SIZE cfg < n then Some (NULL, s)
     else map_option (\<lambda>(block, s'). (if block = NULL then NULL else get_payload_ptr block, s'))
            (find_fit s (max MIN_PAYLOAD_SIZE
               ((n + ALIGNMENT cfg - 1) div ALIGNMENT cfg * ALIGNMENT cfg))))"
proof (cases "n = 0 \<or> MAX_REQUEST_SIZE cfg < n")
  case True
  then show ?thesis by (auto simp: mymalloc_def)
next
  case False
  then have n: "0 < n" "n \<le> MAX_REQUEST_SIZE cfg" by auto
  have "(2 :: nat) ^ k < 2 ^ 64" using assms n by simp
  then have k: "k < 64" using power_less_imp_less_exp[of 2 k 64] by simp
  have "n + 2 ^ k \<le> 2 ^ 64" using assms n by simp
  from align_round_up[OF k this]
  have al: "align n (ALIGNMENT cfg) = (n + ALIGNMENT cfg - 1) div ALIGNMENT cfg * ALIGNMENT cfg"
    using assms(1) by simp
  have "aligned_size cfg n
      = max MIN_PAYLOAD_SIZE ((n + ALIGNMENT cfg - 1) div ALIGNMENT cfg * ALIGNMENT cfg)"
    unfolding aligned_size_def al by (simp add: max_def)
  then show ?thesis using False
    by (auto simp: mymalloc_eq get_payload_ptr_def split: option.splits)
qed

theorem C9_mymalloc_request_witness:
  "ALIGNMENT cfg8 = 2 ^ 3 \<and> MAX_REQUEST_SIZE cfg8 + ALIGNMENT cfg8 \<le> 2 ^ 64 \<and>
   mymalloc cfg8 ex72 0 = Some (NULL, ex72) \<and>
   mymalloc cfg8 ex72 1073741825 = Some (NULL, ex72) \<and>
   mymalloc cfg8 ex72 13 =
     map_option (\<lambda>(block, s'). (if block = NULL then NULL else get_payload_ptr block, s'))
       (find_fit ex72 16)"
proof -
  have h: "ALIGNMENT cfg8 = 2 ^ 3" "MAX_REQUEST_SIZE cfg8 + ALIGNMENT cfg8 \<le> 2 ^ 64"
    by (simp_all add: cfg8_def)
  note t = C9_mymalloc_request[OF h]
  have "mymalloc cfg8 ex72 0 = Some (NULL, ex72)" using t[of ex72 0] by simp
  moreover have "mymalloc cfg8 ex72 1073741825 = Some (NULL, ex72)"
    using t[of ex72 1073741825] by (simp add: cfg8_def)
  moreover have "mymalloc cfg8 ex72 13 =
     map_option (\<lambda>(block, s'). (if block = NULL then NULL else get_payload_ptr block, s'))
       (find_fit ex72 16)"
    using t[of ex72 13] by (simp add: cfg8_def)
  ultimately show ?thesis using h by simp
qed

text \<open>
  C7: for an allocated payload reference \<open>p\<close> of a heap state and a new size other than
  zero, when the payload size of the block is at least the aligned target size,
  \<open>myrealloc\<close> returns \<open>p\<close> itself.  It splits the block exactly when the payload size is
  at least the target plus \<open>MIN_BLOCK_SIZE\<close>: the block then has the target as its payload
  size and a new free block of the remaining size follows it, at the head of the free
  list.  Otherwise the heap is left as it is.
\<close>

theorem C7_realloc_in_place:
  assumes "heap_state cfg s" and "valid_ptr s p" and "n \<noteq> 0"
    and "aligned_size cfg n \<le> hdr_payload (mem s) (p - HEADER_SIZE)"
  shows "\<exists>s'. myrealloc cfg s p n = Some (p, s') \<and>
    (if aligned_size cfg n + MIN_BLOCK_SIZE \<le> hdr_payload (mem s) (p - HEADER_SIZE)
     then s' = partition_block s (p - HEADER_SIZE) (hdr_payload (mem s) (p - HEADER_SIZE))
                 (aligned_size cfg n) \<and>
          valid_ptr s' p \<and>
          hdr_payload (mem s') (p - HEADER_SIZE) = aligned_size cfg n \<and>
          p + aligned_size cfg n \<in> set (heap_blocks s') \<and>
          hdr_payload (mem s') (p + aligned_size cfg n) =
            hdr_payload (mem s) (p - HEADER_SIZE) - aligned_size cfg n - HEADER_SIZE \<and>
          hdr_allocated (mem s') (p + aligned_size cfg n) = 0 \<and>
          free_list_start s' = p + aligned_size cfg n
     else s' = s)"
proof -
  let ?t = "aligned_size cfg n"
  from heap_state_big[OF assms(1,2)] obtain xs b q ys fl where
    p: "p = b + 8" and big: "big s (xs @ (b, q) # ys) fl" and bfl: "b \<notin> set fl" by blast
  have bq: "(b, q) \<in> set (xs @ (b, q) # ys)" by simp
  note bb = layout_bounds[OF big_layout[OF big] bq]
  have q: "hdr_payload (mem s) (p - 8) = q" using bb(7) p by simp
  have tq: "?t \<le> q" using assms(4) q by simp
  have sa: "size_t_add ?t 24 = ?t + 24" using tq bb(3) by (simp add: size_t_add_exact)
  have p0: "p \<noteq> NULL" using p by simp
  note eq = myrealloc_eq[OF p0 assms(3), of cfg s, unfolded Let_def q sa]
  show ?thesis
  proof (cases "?t + 24 \<le> q")
    case True
    let ?s' = "partition_block s b q ?t"
    let ?bl' = "xs @ (b, ?t) # (b + ?t + 8, q - ?t - 8) # ys"
    have r: "myrealloc cfg s p n = Some (p, ?s')" using eq True p by auto
    have big': "big ?s' ?bl' ((b + ?t + 8) # fl)"
      using big_partition[OF big aligned_size_ge True] .
    have d': "distinct (map fst ?bl')" using big_distinct[OF big'] .
    have bn: "b \<notin> set ((b + ?t + 8) # fl)" using bfl by simp
    have vp: "valid_ptr ?s' p" unfolding big_valid_ptr[OF big'] using p bn by auto
    have 1: "hdr_payload (mem ?s') b = ?t"
      using layout_bounds(7)[OF big_layout[OF big'], of b ?t] by simp
    have 2: "hdr_payload (mem ?s') (b + ?t + 8) = q - ?t - 8"
      using layout_bounds(7)[OF big_layout[OF big'], of "b + ?t + 8" "q - ?t - 8"] by simp
    have 3: "hdr_allocated (mem ?s') (b + ?t + 8) = 0"
      using big_flag[OF big', of "b + ?t + 8" "q - ?t - 8"] by simp
    have 4: "b + ?t + 8 \<in> set (heap_blocks ?s')" using big_walk(1)[OF big'] by simp
    have 5: "free_list_start ?s' = b + ?t + 8" using big_flist[OF big'] by simp
    have e: "p + ?t = b + ?t + 8" "p - 8 = b" using p by simp_all
    show ?thesis using r True vp 1 2 3 4 5 bb(7) unfolding q e by simp
  next
    case False
    then have "myrealloc cfg s p n = Some (p, s)" using eq tq p by auto
    then show ?thesis using False q by simp
  qed
qed

lemma align_64: "align 64 8 = 64"
  by (simp add: align_def)

lemma ex64_run: "mymalloc cfg8 ex72 64 = Some (4104, ex64)"
  unfolding ex64_def ex72_def by (simp add: run_defs align_64)

lemma ex64_state: "heap_state cfg8 ex64"
  using heap_state_step(1)[OF ex72_reach ex64_run] .

lemma ex64_fields:
  "heap_blocks ex64 = [4096]" "hdr_payload (mem ex64) 4096 = 64" "hdr_allocated (mem ex64) 4096 = 1"
  unfolding heap_blocks_def ex64_def ex72_def
  by (simp_all add: run_defs align_64 heap_walk.simps)

theorem C7_realloc_in_place_witness:
  "heap_state cfg8 ex64 \<and> valid_ptr ex64 4104 \<and> (16 :: nat) \<noteq> 0 \<and>
   aligned_size cfg8 16 \<le> hdr_payload (mem ex64) (4104 - HEADER_SIZE) \<and>
   (\<exists>s'. myrealloc cfg8 ex64 4104 16 = Some (4104, s') \<and>
      hdr_payload (mem s') 4096 = 16 \<and> heap_blocks s' = [4096, 4120] \<and>
      hdr_payload (mem s') 4120 = 40 \<and> hdr_allocated (mem s') 4120 = 0 \<and>
      free_list_start s' = 4120) \<and>
   heap_state cfg8 ex_abc \<and> valid_ptr ex_abc 4104 \<and>
   aligned_size cfg8 16 \<le> hdr_payload (mem ex_abc) (4104 - HEADER_SIZE) \<and>
   myrealloc cfg8 ex_abc 4104 16 = Some (4104, ex_abc)"
proof -
  have t: "aligned_size cfg8 16 = 16" by (simp add: aligned_size_def cfg8_def align_examples)
  have v: "valid_ptr ex64 4104" by (simp add: valid_ptr_def ex64_fields)
  have le: "aligned_size cfg8 16 \<le> hdr_payload (mem ex64) (4104 - HEADER_SIZE)"
    by (simp add: t ex64_fields)
  from C7_realloc_in_place[OF ex64_state v _ le]
  obtain s' where s': "myrealloc cfg8 ex64 4104 16 = Some (4104, s')"
    "s' = partition_block ex64 4096 64 16" "hdr_payload (mem s') 4096 = 16"
    "hdr_payload (mem s') 4120 = 40" "hdr_allocated (mem s') 4120 = 0" "free_list_start s' = 4120"
    by (auto simp: t ex64_fields)
  have hb: "heap_blocks s' = [4096, 4120]"
    unfolding s'(2) heap_blocks_def ex64_def ex72_def
    by (simp add: run_defs align_64 heap_walk.simps)
  have v2: "valid_ptr ex_abc 4104" by (simp add: valid_ptr_def ex_abc_blocks ex_abc_fields)
  have le2: "aligned_size cfg8 16 \<le> hdr_payload (mem ex_abc) (4104 - HEADER_SIZE)"
    by (simp add: t ex_abc_fields)
  from C7_realloc_in_place[OF ex_abc_state(3) v2 _ le2]
  have r2: "myrealloc cfg8 ex_abc 4104 16 = Some (4104, ex_abc)"
    by (auto simp: t ex_abc_fields)
  show ?thesis using ex64_state v le s' hb ex_abc_state(3) v2 le2 r2 by auto
qed

text \<open>
  C8: \<open>find_fit\<close> returns the first block of the free list, in the order of the next-links
  from \<open>free_list_start\<close>, whose payload size is at least the request; it splits that block
  first exactly when its payload size is at least the request plus \<open>MIN_BLOCK_SIZE\<close>, and
  removes it from the free list.  When no block of the list fits it returns \<open>NULL\<close> and
  leaves the heap as it is.
\<close>

theorem C8_find_fit_first_fit:
  assumes "is_free_list (mem s) (free_list_start s) fl"
  shows "find_fit s req =
    (case find (\<lambda>c. req \<le> hdr_payload (mem s) c) fl of
       None \<Rightarrow> Some (NULL, s)
     | Some c \<Rightarrow>
         Some (c, remove_block
                (if req + MIN_BLOCK_SIZE \<le> hdr_payload (mem s) c
                 then partition_block s c (hdr_payload (mem s) c) req else s) c))"
proof (cases "find (\<lambda>c. req \<le> hdr_payload (mem s) c) fl")
  case None
  then show ?thesis using find_fit_loop_scan[OF assms, of req] by (simp add: find_fit_def)
next
  case (Some c)
  from find_SomeD[OF Some] have "req \<le> hdr_payload (mem s) c" by simp
  moreover have "hdr_payload (mem s) c < 2 ^ 32" by (rule field_bounds)
  ultimately have "size_t_add req 24 = req + 24" by (simp add: size_t_add_exact)
  then show ?thesis using find_fit_loop_scan[OF assms, of req] Some by (simp add: find_fit_def)
qed

theorem C8_find_fit_first_fit_witness:
  "is_free_list (mem ex1000) (free_list_start ex1000) [4096] \<and>
   hdr_payload (mem ex1000) 4096 = 1000 \<and>
   find_fit ex1000 16 = Some (4096, snd (the (find_fit ex1000 16))) \<and>
   hdr_payload (mem (snd (the (find_fit ex1000 16)))) 4096 = 16 \<and>
   hdr_allocated (mem (snd (the (find_fit ex1000 16)))) 4096 = 1 \<and>
   heap_blocks (snd (the (find_fit ex1000 16))) = [4096, 4120] \<and>
   hdr_payload (mem (snd (the (find_fit ex1000 16)))) 4120 = 1000 - 16 - HEADER_SIZE \<and>
   hdr_allocated (mem (snd (the (find_fit ex1000 16)))) 4120 = 0 \<and>
   is_free_list (mem (snd (the (find_fit ex1000 16))))
     (free_list_start (snd (the (find_fit ex1000 16)))) [4120] \<and>
   find_fit ex1000 1008 = Some (NULL, ex1000)"
proof -
  have fl: "is_free_list (mem ex1000) (free_list_start ex1000) [4096]"
    unfolding ex1000_def by (simp add: run_defs)
  have p: "hdr_payload (mem ex1000) 4096 = 1000" unfolding ex1000_def by (simp add: run_defs)
  note t = C8_find_fit_first_fit[OF fl]
  have r: "find_fit ex1000 16 =
      Some (4096, remove_block (partition_block ex1000 4096 1000 16) 4096)"
    using t[of 16] p by simp
  have n: "find_fit ex1000 1008 = Some (NULL, ex1000)" using t[of 1008] p by simp
  have s: "snd (the (find_fit ex1000 16)) = remove_block (partition_block ex1000 4096 1000 16) 4096"
    using r by simp
  show ?thesis unfolding s using fl p r n
    unfolding ex1000_def heap_blocks_def by (simp add: run_defs heap_walk.simps)
qed

lemma contig_cover:
  "contig a e bl \<Longrightarrow> a \<le> x \<Longrightarrow> x < e \<Longrightarrow> \<exists>b p. (b, p) \<in> set bl \<and> b \<le> x \<and> x < b + 8 + p"
proof (induction a e bl rule: contig.induct)
  case (1 a e)
  then show ?case by simp
next
  case (2 a e b p bl)
  show ?case
  proof (cases "x < a + 8 + p")
    case True
    then show ?thesis using 2 by auto
  next
    case False
    then have "\<exists>b p. (b, p) \<in> set bl \<and> b \<le> x \<and> x < b + 8 + p" using 2 by auto
    then show ?thesis by auto
  qed
qed

text \<open>The layout behind the invariant, for the heaps with blocks and for the small ones.\<close>

lemma heap_inv_layout:
  assumes "heap_inv A sm s"
  shows "\<exists>bl. contig (segment_start s) (segment_end s) bl \<and>
              (\<forall>(b, p)\<in>set bl. hdr_payload (mem s) b = p) \<and> heap_blocks s = map fst bl \<and>
              walk_end (mem s) (segment_start s) (segment_end s) = segment_end s"
proof (cases "sm \<and> small s")
  case True
  let ?bl = "[(segment_start s, hdr_payload (mem s) (segment_start s))]"
  have "contig (segment_start s) (segment_end s) ?bl" using True by (simp add: small_def)
  then show ?thesis using small_walk(1,2)[of s] True by (intro exI[of _ ?bl]) simp
next
  case False
  then obtain bl fl where big: "big s bl fl" using assms by (auto simp: heap_inv_def)
  have "contig (segment_start s) (segment_end s) bl"
    using big by (simp add: big_def layout_def wf_blocks_def)
  moreover have "\<forall>(b, p)\<in>set bl. hdr_payload (mem s) b = p"
    using layout_bounds(7)[OF big_layout[OF big]] by auto
  ultimately show ?thesis using big_walk[OF big] by blast
qed

lemma heap_inv_free_list:
  assumes "heap_inv A sm s"
  shows "\<exists>fl. is_free_list (mem s) (free_list_start s) fl \<and> distinct fl \<and>
           set fl \<subseteq> set (heap_blocks s) \<and>
           (\<forall>b\<in>set (heap_blocks s). (hdr_allocated (mem s) b = 0) = (b \<in> set fl))"
proof (cases "sm \<and> small s")
  case True
  then show ?thesis using small_walk(1,3)[of s]
    by (intro exI[of _ "[segment_start s]"]) (simp add: small_def)
next
  case False
  then obtain bl fl where big: "big s bl fl" using assms by (auto simp: heap_inv_def)
  have 1: "is_free_list (mem s) (free_list_start s) fl" "distinct fl"
    using big_flist[OF big] by (auto intro: seg_is_free_list)
  have 2: "set fl \<subseteq> set (heap_blocks s)" using big big_walk(1)[OF big] by (simp add: big_def)
  have 3: "\<forall>b\<in>set (heap_blocks s). (hdr_allocated (mem s) b = 0) = (b \<in> set fl)"
    using big_flag[OF big] big_walk(1)[OF big] by auto
  from 1 2 3 show ?thesis by blast
qed

text \<open>
  C4 (as amended): in every heap state reached from a successful \<open>myinit\<close> on a segment of
  fewer than \<open>2^32 + 8\<close> bytes, the walk from \<open>segment_start\<close> that advances by the header
  size plus the payload size ends exactly on \<open>segment_end\<close>; the blocks it visits are
  pairwise different, lie within the segment, and every byte of the segment belongs to
  exactly one of them.
\<close>

theorem C4_walk_covers_segment:
  assumes "heap_state cfg s"
  shows "walk_end (mem s) (segment_start s) (segment_end s) = segment_end s \<and>
    distinct (heap_blocks s) \<and>
    (\<forall>b\<in>set (heap_blocks s). block_bytes s b \<subseteq> {segment_start s ..< segment_end s}) \<and>
    (\<forall>x\<in>{segment_start s ..< segment_end s}. \<exists>!b. b \<in> set (heap_blocks s) \<and> x \<in> block_bytes s b)"
proof -
  from heap_inv_layout[OF heap_state_inv[OF assms]] obtain bl where
    c: "contig (segment_start s) (segment_end s) bl"
    and p0: "\<forall>(b, q)\<in>set bl. hdr_payload (mem s) b = q"
    and hb: "heap_blocks s = map fst bl"
    and we: "walk_end (mem s) (segment_start s) (segment_end s) = segment_end s"
    by blast
  have p: "hdr_payload (mem s) b = q" if "(b, q) \<in> set bl" for b q using p0 that by auto
  have d: "distinct (heap_blocks s)" using contig_distinct[OF c] hb by simp
  have mem: "b \<in> set (heap_blocks s) \<longleftrightarrow> (b, hdr_payload (mem s) b) \<in> set bl" for b
    using hb p by force
  have sub: "block_bytes s b \<subseteq> {segment_start s ..< segment_end s}" if "b \<in> set (heap_blocks s)" for b
    using contig_mem[OF c, of b "hdr_payload (mem s) b"] that mem
    by (auto simp: block_bytes_def)
  have ex1: "\<exists>!b. b \<in> set (heap_blocks s) \<and> x \<in> block_bytes s b"
    if "x \<in> {segment_start s ..< segment_end s}" for x
  proof -
    from contig_cover[OF c, of x] that obtain b q where b: "(b, q) \<in> set bl" "b \<le> x" "x < b + 8 + q"
      by auto
    show ?thesis
    proof (rule ex1I[of _ b])
      show "b \<in> set (heap_blocks s) \<and> x \<in> block_bytes s b"
        using b p[OF b(1)] hb by (force simp: block_bytes_def)
    next
      fix b' assume b': "b' \<in> set (heap_blocks s) \<and> x \<in> block_bytes s b'"
      then have 1: "(b', hdr_payload (mem s) b') \<in> set bl" "b' \<le> x"
        "x < b' + 8 + hdr_payload (mem s) b'"
        using mem by (auto simp: block_bytes_def)
      show "b' = b"
      proof (rule ccontr)
        assume "b' \<noteq> b"
        from contig_sep[OF c 1(1) b(1) this] 1 b show False by auto
      qed
    qed
  qed
  show ?thesis using we d sub ex1 by blast
qed

text \<open>
  C5 (as amended): in every heap state reached from a successful \<open>myinit\<close> on a segment of
  fewer than \<open>2^32 + 8\<close> bytes, the next-links from \<open>free_list_start\<close> lead through a list
  of blocks to \<open>NULL\<close>; no block is in the list twice, every entry is a block of the heap,
  and a block of the heap is in the list if and only if its header marks it unallocated.
\<close>

theorem C5_free_list_consistent:
  assumes "heap_state cfg s"
  shows "\<exists>fl. is_free_list (mem s) (free_list_start s) fl \<and> distinct fl \<and>
           set fl \<subseteq> set (heap_blocks s) \<and>
           (\<forall>b\<in>set (heap_blocks s). (hdr_allocated (mem s) b = 0) = (b \<in> set fl))"
  using heap_inv_free_list[OF heap_state_inv[OF assms]] .

text \<open>
  C3 (as amended): when \<open>ALIGNMENT\<close> is 1, 2, 4 or 8 and the segment size is a multiple of
  it, at least \<open>MIN_BLOCK_SIZE\<close> and less than \<open>2^32 + 8\<close>, then in every heap state
  reached from \<open>myinit\<close> on that segment the payload size of every block is a multiple of
  \<open>ALIGNMENT\<close> and at least \<open>MIN_PAYLOAD_SIZE\<close>.
\<close>

theorem C3_payload_sizes:
  assumes "valid_region a n" and "MIN_BLOCK_SIZE \<le> n" and "n < 2 ^ 32 + 8"
    and "ALIGNMENT cfg = 2 ^ k" and "k \<le> 3" and "ALIGNMENT cfg dvd n"
    and "myinit st a n = (True, s0)" and "reachable cfg s0 s"
  shows "\<forall>b\<in>set (heap_blocks s).
           ALIGNMENT cfg dvd hdr_payload (mem s) b \<and> MIN_PAYLOAD_SIZE \<le> hdr_payload (mem s) b"
proof -
  let ?A = "ALIGNMENT cfg"
  have "(2 :: nat) ^ k dvd 2 ^ 3" using assms(5) by (intro le_imp_power_dvd)
  then have A8: "?A dvd 8" using assms(4) by simp
  then have "?A dvd n - 8" using assms(6) by (rule dvd_diff_nat[rotated])
  from myinit_inv[OF assms(1,3,7), of ?A] this assms(2)
  have "heap_inv ?A False s0" by simp
  from reachable_inv[OF assms(8) this A8 aligned_size_dvd[OF assms(4,5)]]
  obtain bl fl where big: "big s bl fl" and al: "aligned_blocks ?A bl"
    by (auto simp: heap_inv_def)
  show ?thesis
  proof
    fix b assume "b \<in> set (heap_blocks s)"
    then obtain q where q: "(b, q) \<in> set bl" using big_walk(1)[OF big] by auto
    from layout_bounds(4,7)[OF big_layout[OF big] q] al q
    show "?A dvd hdr_payload (mem s) b \<and> MIN_PAYLOAD_SIZE \<le> hdr_payload (mem s) b"
      by (auto simp: aligned_blocks_def)
  qed
qed

lemma memff_payload: "hdr_payload memff b = 4294967295"
  by (simp add: hdr_payload_def load32_def memff_def)

lemma exhuge_init: "myinit heapff 4096 4294967312 = (True, exhuge)"
  by (simp add: exhuge_def myinit_eq)

lemma exhuge_fields:
  "segment_start exhuge = 4096" "segment_end exhuge = 4294971408" "free_list_start exhuge = 4096"
  "hdr_payload (mem exhuge) 4096 = 8" "get_next (mem exhuge) 4096 = NULL"
  "hdr_payload (mem exhuge) 4120 = 4294967295"
  unfolding exhuge_def by (simp_all add: myinit_eq far_def memff_payload heapff_def)

lemma exhuge_overlap:
  "hdr_payload (mem exhuge) 4112 = 0" "hdr_allocated (mem exhuge) 4112 = 0"
  unfolding exhuge_def
  by (simp_all add: myinit_eq heapff_def field_defs store64_def store32_def load32_def)

lemma ex_abc_reachable: "reachable cfg8 ex72 ex_abc"
  by (rule r_malloc[OF r_malloc[OF r_malloc[OF r_init ex_a_run] ex_ab_run] ex_abc_run])

lemma ex72_init: "valid_region 4096 72" "myinit heap0 4096 72 = (True, ex72)"
  by (simp_all add: valid_region_def ex72_def myinit_eq)

theorem C4_walk_covers_segment_witness:
  "heap_state cfg8 ex_abc \<and>
   walk_end (mem ex_abc) (segment_start ex_abc) (segment_end ex_abc) = 4168 \<and>
   segment_end ex_abc = 4168 \<and> heap_blocks ex_abc = [4096, 4120, 4144] \<and>
   block_bytes ex_abc 4120 \<subseteq> {segment_start ex_abc ..< segment_end ex_abc} \<and>
   (\<exists>!b. b \<in> set (heap_blocks ex_abc) \<and> 4130 \<in> block_bytes ex_abc b)"
proof -
  note t = C4_walk_covers_segment[OF ex_abc_state(3)]
  have 1: "walk_end (mem ex_abc) (segment_start ex_abc) (segment_end ex_abc) = 4168"
    using t by (simp add: ex_abc_fields)
  have 2: "block_bytes ex_abc 4120 \<subseteq> {segment_start ex_abc ..< segment_end ex_abc}"
    using t by (simp add: ex_abc_blocks)
  have "4130 \<in> {segment_start ex_abc ..< segment_end ex_abc}" by (simp add: ex_abc_fields)
  then have 3: "\<exists>!b. b \<in> set (heap_blocks ex_abc) \<and> 4130 \<in> block_bytes ex_abc b"
    using t by blast
  show ?thesis using ex_abc_state(3) 1 2 3 by (simp add: ex_abc_fields ex_abc_blocks)
qed

theorem C4_counterexample:
  "valid_region 4096 4294967312 \<and> myinit heapff 4096 4294967312 = (True, exhuge) \<and>
   reachable cfg8 exhuge exhuge \<and> segment_end exhuge = 4294971408 \<and>
   walk_end (mem exhuge) (segment_start exhuge) (segment_end exhuge) = 4294971423"
proof -
  have "walk_end (mem exhuge) 4096 4294971408 = walk_end (mem exhuge) 4112 4294971408"
    by (subst walk_end.simps) (simp add: exhuge_fields)
  also have "\<dots> = walk_end (mem exhuge) 4120 4294971408"
    by (subst walk_end.simps) (simp add: exhuge_overlap)
  also have "\<dots> = walk_end (mem exhuge) 4294971423 4294971408"
    by (subst walk_end.simps) (simp add: exhuge_fields)
  also have "\<dots> = 4294971423" by (subst walk_end.simps) simp
  finally show ?thesis
    using exhuge_init by (simp add: exhuge_fields valid_region_def r_init)
qed

theorem C5_free_list_consistent_witness:
  "heap_state cfg8 ex_a \<and> heap_blocks ex_a = [4096, 4120] \<and>
   (\<exists>fl. is_free_list (mem ex_a) (free_list_start ex_a) fl \<and> distinct fl \<and>
      (hdr_allocated (mem ex_a) 4096 = 0) = (4096 \<in> set fl) \<and>
      (hdr_allocated (mem ex_a) 4120 = 0) = (4120 \<in> set fl)) \<and>
   hdr_allocated (mem ex_a) 4096 = 1 \<and> hdr_allocated (mem ex_a) 4120 = 0"
proof -
  have hb: "heap_blocks ex_a = [4096, 4120]"
    unfolding heap_blocks_def ex_a_def ex72_def by (simp add: run_defs heap_walk.simps)
  have al: "hdr_allocated (mem ex_a) 4096 = 1" "hdr_allocated (mem ex_a) 4120 = 0"
    unfolding ex_a_def ex72_def by (simp_all add: run_defs)
  from C5_free_list_consistent[OF ex_abc_state(1)] obtain fl where
    "is_free_list (mem ex_a) (free_list_start ex_a) fl" "distinct fl"
    "\<forall>b\<in>set (heap_blocks ex_a). (hdr_allocated (mem ex_a) b = 0) = (b \<in> set fl)" by blast
  then have "\<exists>fl. is_free_list (mem ex_a) (free_list_start ex_a) fl \<and> distinct fl \<and>
      (hdr_allocated (mem ex_a) 4096 = 0) = (4096 \<in> set fl) \<and>
      (hdr_allocated (mem ex_a) 4120 = 0) = (4120 \<in> set fl)"
    unfolding hb by (intro exI[of _ fl]) simp
  then show ?thesis using ex_abc_state(1) hb al by blast
qed

theorem C5_counterexample:
  "valid_region 4096 4294967312 \<and> myinit heapff 4096 4294967312 = (True, exhuge) \<and>
   reachable cfg8 exhuge exhuge \<and> 4112 \<in> set (heap_blocks exhuge) \<and>
   hdr_allocated (mem exhuge) 4112 = 0 \<and>
   is_free_list (mem exhuge) (free_list_start exhuge) [4096] \<and> 4112 \<notin> set [4096 :: nat]"
proof -
  have "heap_walk (mem exhuge) 4096 4294971408 = 4096 # heap_walk (mem exhuge) 4112 4294971408"
    by (subst heap_walk.simps) (simp add: exhuge_fields)
  also have "heap_walk (mem exhuge) 4112 4294971408 =
      4112 # heap_walk (mem exhuge) (4112 + hdr_payload (mem exhuge) 4112 + 8) 4294971408"
    by (subst heap_walk.simps) simp
  finally have "4112 \<in> set (heap_blocks exhuge)"
    by (simp add: heap_blocks_def exhuge_fields)
  then show ?thesis
    using exhuge_init by (simp add: exhuge_fields exhuge_overlap valid_region_def r_init)
qed

theorem C3_payload_sizes_witness:
  "valid_region 4096 72 \<and> MIN_BLOCK_SIZE \<le> (72 :: nat) \<and> (72 :: nat) < 2 ^ 32 + 8 \<and>
   ALIGNMENT cfg8 = 2 ^ 3 \<and> (3 :: nat) \<le> 3 \<and> ALIGNMENT cfg8 dvd 72 \<and>
   myinit heap0 4096 72 = (True, ex72) \<and> reachable cfg8 ex72 ex_abc \<and>
   heap_blocks ex_abc = [4096, 4120, 4144] \<and>
   ALIGNMENT cfg8 dvd hdr_payload (mem ex_abc) 4120 \<and>
   MIN_PAYLOAD_SIZE \<le> hdr_payload (mem ex_abc) 4120"
proof -
  have h: "ALIGNMENT cfg8 = 2 ^ 3" "ALIGNMENT cfg8 dvd 72" by (simp_all add: cfg8_def)
  from C3_payload_sizes[OF ex72_init(1) _ _ h(1) _ h(2) ex72_init(2) ex_abc_reachable]
  have "ALIGNMENT cfg8 dvd hdr_payload (mem ex_abc) 4120 \<and>
        MIN_PAYLOAD_SIZE \<le> hdr_payload (mem ex_abc) 4120"
    by (simp add: ex_abc_blocks)
  then show ?thesis using ex72_init h ex_abc_reachable ex_abc_blocks by simp
qed

theorem C3_counterexample:
  "valid_region 4096 20 \<and> myinit heap0 4096 20 = (True, ex20) \<and> reachable cfg8 ex20 ex20 \<and>
   heap_blocks ex20 = [4096] \<and> hdr_payload (mem ex20) 4096 = 12 \<and>
   \<not> MIN_PAYLOAD_SIZE \<le> hdr_payload (mem ex20) 4096 \<and>
   valid_region 4096 100 \<and> myinit heap0 4096 100 = (True, ex100) \<and>
   reachable cfg8 ex100 ex100 \<and> heap_blocks ex100 = [4096] \<and>
   hdr_payload (mem ex100) 4096 = 92 \<and> \<not> ALIGNMENT cfg8 dvd hdr_payload (mem ex100) 4096 \<and>
   valid_region 4096 4294967312 \<and> ALIGNMENT cfg8 dvd 4294967312 \<and>
   myinit heapff 4096 4294967312 = (True, exhuge) \<and> reachable cfg8 exhuge exhuge \<and>
   hd (heap_blocks exhuge) = 4096 \<and> hdr_payload (mem exhuge) 4096 = 8 \<and>
   \<not> MIN_PAYLOAD_SIZE \<le> hdr_payload (mem exhuge) 4096"
proof -
  have 1: "heap_blocks ex20 = [4096]" "hdr_payload (mem ex20) 4096 = 12"
    unfolding heap_blocks_def ex20_def by (simp_all add: run_defs heap_walk.simps)
  have 2: "heap_blocks ex100 = [4096]" "hdr_payload (mem ex100) 4096 = 92"
    unfolding heap_blocks_def ex100_def by (simp_all add: run_defs heap_walk.simps)
  have 3: "hd (heap_blocks exhuge) = 4096"
    unfolding heap_blocks_def by (subst heap_walk.simps) (simp add: exhuge_fields)
  have 4: "ALIGNMENT cfg8 dvd 4294967312" by (simp add: cfg8_def)
  have 5: "valid_region 4096 20" "valid_region 4096 100" "valid_region 4096 4294967312"
    by (simp_all add: valid_region_def)
  have 6: "myinit heap0 4096 20 = (True, ex20)" "myinit heap0 4096 100 = (True, ex100)"
    by (simp_all add: ex20_def ex100_def myinit_eq)
  have 7: "\<not> ALIGNMENT cfg8 dvd (92 :: nat)" by (simp add: cfg8_def)
  show ?thesis using 1 2 3 4 5 6 7 exhuge_init by (simp add: exhuge_fields r_init)
qed

text \<open>
  C6 (as amended): \<open>myinit\<close> reports failure, and leaves the state as it is, when the length
  is at most \<open>HEADER_SIZE\<close>.  For a region of at least \<open>MIN_BLOCK_SIZE\<close> and fewer than
  \<open>2^32 + 8\<close> bytes it reports success and installs one free block that spans the whole
  segment, with payload size the length minus \<open>HEADER_SIZE\<close>, both links \<open>NULL\<close>, as the
  only entry of the free list.
\<close>

theorem C6_myinit:
  "(n \<le> HEADER_SIZE \<longrightarrow> myinit s a n = (False, s)) \<and>
   (valid_region a n \<and> MIN_BLOCK_SIZE \<le> n \<and> n < 2 ^ 32 + 8 \<longrightarrow>
      (\<exists>s'. myinit s a n = (True, s') \<and> segment_start s' = a \<and> segment_end s' = a + n \<and>
         heap_blocks s' = [a] \<and> hdr_payload (mem s') a = n - HEADER_SIZE \<and>
         block_bytes s' a = {a ..< a + n} \<and> hdr_allocated (mem s') a = 0 \<and>
         get_previous (mem s') a = NULL \<and> get_next (mem s') a = NULL \<and>
         free_list_start s' = a \<and> is_free_list (mem s') (free_list_start s') [a]))"
proof (intro conjI impI)
  assume "n \<le> HEADER_SIZE"
  then show "myinit s a n = (False, s)" by (simp add: myinit_def)
next
  assume h: "valid_region a n \<and> MIN_BLOCK_SIZE \<le> n \<and> n < 2 ^ 32 + 8"
  let ?s = "snd (myinit s a n)"
  have n: "8 < n" "n < 2 ^ 64" "(n - 8) mod 2 ^ 32 = n - 8" using h by auto
  note f = myinit_fields[OF n(1,2), of s a, unfolded n(3)]
  have big: "big ?s [(a, n - 8)] [a]" using myinit_big[of a n s] h by simp
  have 1: "myinit s a n = (True, ?s)" using f(1) by (cases "myinit s a n") simp
  have 2: "heap_blocks ?s = [a]" using big_walk(1)[OF big] by simp
  have 3: "block_bytes ?s a = {a ..< a + n}" using f(6) n(1) by (simp add: block_bytes_def)
  have 4: "is_free_list (mem ?s) (free_list_start ?s) [a]"
    using big_flist[OF big] by (auto intro: seg_is_free_list)
  show "\<exists>s'. myinit s a n = (True, s') \<and> segment_start s' = a \<and> segment_end s' = a + n \<and>
         heap_blocks s' = [a] \<and> hdr_payload (mem s') a = n - HEADER_SIZE \<and>
         block_bytes s' a = {a ..< a + n} \<and> hdr_allocated (mem s') a = 0 \<and>
         get_previous (mem s') a = NULL \<and> get_next (mem s') a = NULL \<and>
         free_list_start s' = a \<and> is_free_list (mem s') (free_list_start s') [a]"
    using 1 2 3 4 f by (intro exI[of _ ?s]) simp
qed

theorem C6_myinit_witness:
  "(5 :: nat) \<le> HEADER_SIZE \<and> myinit heap0 4096 5 = (False, heap0) \<and>
   valid_region 4096 72 \<and> MIN_BLOCK_SIZE \<le> (72 :: nat) \<and> (72 :: nat) < 2 ^ 32 + 8 \<and>
   myinit heap0 4096 72 = (True, ex72) \<and> segment_start ex72 = 4096 \<and> segment_end ex72 = 4168 \<and>
   heap_blocks ex72 = [4096] \<and> hdr_payload (mem ex72) 4096 = 64 \<and>
   block_bytes ex72 4096 = {4096 ..< 4168} \<and> hdr_allocated (mem ex72) 4096 = 0 \<and>
   get_previous (mem ex72) 4096 = NULL \<and> get_next (mem ex72) 4096 = NULL \<and>
   free_list_start ex72 = 4096 \<and> is_free_list (mem ex72) (free_list_start ex72) [4096]"
proof -
  note t = C6_myinit[of 5 heap0 4096] C6_myinit[of 72 heap0 4096]
  have 1: "myinit heap0 4096 5 = (False, heap0)" using t(1) by simp
  have "valid_region 4096 72 \<and> MIN_BLOCK_SIZE \<le> (72 :: nat) \<and> (72 :: nat) < 2 ^ 32 + 8"
    by (simp add: valid_region_def)
  with t(2) obtain s' where s': "myinit heap0 4096 72 = (True, s')" "segment_start s' = 4096"
    "segment_end s' = 4096 + 72" "heap_blocks s' = [4096]" "hdr_payload (mem s') 4096 = 72 - 8"
    "block_bytes s' 4096 = {4096 ..< 4096 + 72}" "hdr_allocated (mem s') 4096 = 0"
    "get_previous (mem s') 4096 = NULL" "get_next (mem s') 4096 = NULL"
    "free_list_start s' = 4096" "is_free_list (mem s') (free_list_start s') [4096]"
    by blast
  have "s' = ex72" using s'(1) by (simp add: ex72_def)
  then show ?thesis using 1 s' by (simp add: valid_region_def)
qed

theorem C6_counterexample:
  "myinit heap0 4096 8 = (False, heap0) \<and> \<not> (8 :: nat) < HEADER_SIZE \<and>
   valid_region 4096 4294967312 \<and> myinit heapff 4096 4294967312 = (True, exhuge) \<and>
   segment_start exhuge = 4096 \<and> segment_end exhuge = 4294971408 \<and>
   hdr_payload (mem exhuge) 4096 = 8 \<and> block_bytes exhuge 4096 = {4096 ..< 4112}"
  using exhuge_init
  by (simp add: myinit_def exhuge_fields valid_region_def block_bytes_def)

lemma coalesce_right_noop:
  "\<not> (b + hdr_payload (mem s) b + 8 < segment_end s \<and>
      hdr_allocated (mem s) (b + hdr_payload (mem s) b + 8) = 0)
   \<Longrightarrow> coalesce_right s b = s"
  unfolding coalesce_right_def by (subst coalesce_loop.simps) auto

lemma coalesce_right_grows:
  assumes big: "big s (xs @ (b, q) # ys) fl"
    and nb: "b + q + 8 < segment_end s" "hdr_allocated (mem s) (b + q + 8) = 0"
  shows "q + 24 \<le> hdr_payload (mem (coalesce_right s b)) b"
proof -
  obtain c r zs where ys: "ys = (c, r) # zs"
    using big_next_block(1)[OF big] nb(1) by (cases ys) auto
  note bigc = big[unfolded ys]
  from big_next_block(2)[OF big ys] have c: "c = b + q + 8" by simp
  have cr: "(c, r) \<in> set (xs @ (b, q) # (c, r) # zs)" by simp
  have cfl: "c \<in> set fl" using big_flag[OF bigc cr] nb(2) c by simp
  have r16: "16 \<le> r" using layout_bounds(4)[OF big_layout[OF bigc] cr] .
  obtain q' ys' fl' where ab: "absorb (remove1 c fl) (q + r + 8) zs = (q', ys', fl')"
    by (cases "absorb (remove1 c fl) (q + r + 8) zs") auto
  then have ab': "absorb fl q ys = (q', ys', fl')" using cfl ys by simp
  have "q + r + 8 \<le> q'" using absorb_props[OF ab] by simp
  then show ?thesis using coalesce_right_big(2)[OF big ab'] r16 by simp
qed

text \<open>
  A size within \<^verbatim>\<open>ALIGNMENT\<close> of \<open>2^64\<close>: the sum in \<^verbatim>\<open>align\<close> wraps around, the target of
  \<^verbatim>\<open>myrealloc\<close> is \<^verbatim>\<open>MIN_PAYLOAD_SIZE\<close>, and the block of payload size 64 is split.
\<close>

lemma align_wrap: "align 18446744073709551615 8 = 0"
  by (simp add: align_def)

lemma myrealloc_wrap:
  "myrealloc cfg8 ex64 4104 18446744073709551615 =
     Some (4104, partition_block ex64 4096 64 16)"
  "hdr_payload (mem (partition_block ex64 4096 64 16)) 4096 = 16"
  unfolding ex64_def ex72_def by (simp_all add: run_defs align_64 align_wrap)

text \<open>
  C1 (as amended): for an allocated payload reference \<open>p\<close> of a heap state and a new size
  \<open>n\<close> other than zero with \<open>n + ALIGNMENT \<le> 2^64\<close>, \<open>ALIGNMENT\<close> a power of two, so that
  the rounding of \<open>n\<close> in \<^verbatim>\<open>align\<close> does not wrap around: when the block's payload after
  coalescing it with the free blocks that follow it is still smaller than the target size,
  which is \<open>n\<close> rounded up to the alignment and raised to \<open>MIN_PAYLOAD_SIZE\<close>, and the
  allocation of a fresh block fails, \<open>myrealloc\<close> returns \<open>NULL\<close>.  The heap it leaves is
  the one after the coalescing, again a heap state: the block of \<open>p\<close> is still allocated,
  at the same address, the bytes of its old payload are as they were, and its payload size
  has not shrunk.  The heap is the one before the call if and only if the block that
  follows the block of \<open>p\<close> is allocated or the block of \<open>p\<close> ends at \<open>segment_end\<close>.
\<close>

theorem C1_failed_realloc:
  assumes "heap_state cfg s" and "valid_ptr s p" and "n \<noteq> 0"
    and "ALIGNMENT cfg = 2 ^ k" and "n + ALIGNMENT cfg \<le> 2 ^ 64"
    and "hdr_payload (mem (coalesce_right s (p - HEADER_SIZE))) (p - HEADER_SIZE)
           < max MIN_PAYLOAD_SIZE ((n + ALIGNMENT cfg - 1) div ALIGNMENT cfg * ALIGNMENT cfg)"
    and "mymalloc cfg (coalesce_right s (p - HEADER_SIZE)) n = Some (NULL, s2)"
  shows "myrealloc cfg s p n = Some (NULL, coalesce_right s (p - HEADER_SIZE)) \<and>
    heap_state cfg (coalesce_right s (p - HEADER_SIZE)) \<and>
    valid_ptr (coalesce_right s (p - HEADER_SIZE)) p \<and>
    (\<forall>i < hdr_payload (mem s) (p - HEADER_SIZE).
       mem (coalesce_right s (p - HEADER_SIZE)) (p + i) = mem s (p + i)) \<and>
    hdr_payload (mem s) (p - HEADER_SIZE)
      \<le> hdr_payload (mem (coalesce_right s (p - HEADER_SIZE))) (p - HEADER_SIZE) \<and>
    (coalesce_right s (p - HEADER_SIZE) = s) =
      (\<not> (p + hdr_payload (mem s) (p - HEADER_SIZE) < segment_end s \<and>
          hdr_allocated (mem s) (p + hdr_payload (mem s) (p - HEADER_SIZE)) = 0))"
proof -
  let ?t = "aligned_size cfg n"
  from heap_state_big[OF assms(1,2)] obtain xs b q ys fl where
    p: "p = b + 8" and big: "big s (xs @ (b, q) # ys) fl" and bfl: "b \<notin> set fl" by blast
  have pb: "p - 8 = b" using p by simp
  let ?s1 = "coalesce_right s b"
  obtain q' ys' fl' where ab: "absorb fl q ys = (q', ys', fl')" by (cases "absorb fl q ys") auto
  note big1 = coalesce_right_big(1)[OF big ab] and q1 = coalesce_right_big(2)[OF big ab]
  have bq: "(b, q) \<in> set (xs @ (b, q) # ys)" by simp
  have q: "hdr_payload (mem s) b = q" using layout_bounds(7)[OF big_layout[OF big] bq] .
  have qq': "q \<le> q'" and bfl': "b \<notin> set fl'" using absorb_props[OF ab] bfl by auto
  have q't: "q' < ?t" using assms(6) q1 pb aligned_size_round_up[OF assms(4,3,5)] by simp
  have m: "mymalloc cfg ?s1 n = Some (NULL, s2)" using assms(7) pb by simp
  from mymalloc_big[OF big1, of 1 cfg n] m have s2: "s2 = ?s1" by auto
  have p0: "p \<noteq> NULL" using p by simp
  have r: "myrealloc cfg s p n = Some (NULL, ?s1)"
    using myrealloc_eq[OF p0 assms(3), of cfg s] q qq' q't q1 m s2
    by (simp add: Let_def pb)
  have hs: "heap_state cfg ?s1"
    using heap_state_step(3)[OF assms(1) _ r] assms(2) by simp
  have vp: "valid_ptr ?s1 p" unfolding big_valid_ptr[OF big1] using p bfl' by auto
  have data: "mem ?s1 (p + i) = mem s (p + i)" if "i < q" for i
    using coalesce_loop_data[OF big bfl, of "p + i"] coalesce_right_eq[OF big] that p by simp
  have e: "p + q = b + hdr_payload (mem s) b + 8" using p q by simp
  have noop: "?s1 = s" if "\<not> (p + q < segment_end s \<and> hdr_allocated (mem s) (p + q) = 0)"
    using that unfolding e by (rule coalesce_right_noop)
  have e2: "b + q + 8 = p + q" using p by simp
  have grows: "?s1 \<noteq> s" if "p + q < segment_end s \<and> hdr_allocated (mem s) (p + q) = 0"
  proof
    assume "?s1 = s"
    then have "hdr_payload (mem ?s1) b = q" using q by simp
    moreover have "q + 24 \<le> hdr_payload (mem ?s1) b"
      using coalesce_right_grows[OF big, unfolded e2] that by simp
    ultimately show False by simp
  qed
  have iff: "(?s1 = s) = (\<not> (p + q < segment_end s \<and> hdr_allocated (mem s) (p + q) = 0))"
    using noop grows by blast
  show ?thesis unfolding pb q using r hs vp data qq' q1 iff by simp
qed

lemma ex_ac_state: "heap_state cfg8 ex_ac"
  unfolding ex_ac_def
  by (rule heap_state_step(2)[OF ex_abc_state(3)])
    (simp add: valid_ptr_def ex_abc_blocks ex_abc_fields)

lemma ex_ac_fields:
  "heap_blocks ex_ac = [4096, 4120, 4144]" "hdr_payload (mem ex_ac) 4096 = 16"
  "hdr_allocated (mem ex_ac) 4096 = 1" "free_list_start ex_ac = 4120"
  "hdr_allocated (mem ex_ac) 4120 = 0"
  unfolding heap_blocks_def ex_ac_def ex_abc_def ex_ab_def ex_a_def ex72_def
  by (simp_all add: run_defs heap_walk.simps)

lemma ex_fail_fields:
  "heap_blocks ex_fail = [4096, 4144]" "hdr_payload (mem ex_fail) 4096 = 40"
  "free_list_start ex_fail = NULL" "mymalloc cfg8 ex_fail 100 = Some (NULL, ex_fail)"
  unfolding heap_blocks_def ex_fail_def ex_ac_def ex_abc_def ex_ab_def ex_a_def ex72_def
  by (simp_all add: run_defs heap_walk.simps)

theorem C1_failed_realloc_witness:
  "heap_state cfg8 ex_ac \<and> valid_ptr ex_ac 4104 \<and> (100 :: nat) \<noteq> 0 \<and>
   ALIGNMENT cfg8 = 2 ^ 3 \<and> 100 + ALIGNMENT cfg8 \<le> 2 ^ 64 \<and>
   hdr_payload (mem (coalesce_right ex_ac (4104 - HEADER_SIZE))) (4104 - HEADER_SIZE)
      < max MIN_PAYLOAD_SIZE ((100 + ALIGNMENT cfg8 - 1) div ALIGNMENT cfg8 * ALIGNMENT cfg8) \<and>
   mymalloc cfg8 (coalesce_right ex_ac (4104 - HEADER_SIZE)) 100 = Some (NULL, ex_fail) \<and>
   myrealloc cfg8 ex_ac 4104 100 = Some (NULL, ex_fail) \<and>
   heap_state cfg8 ex_fail \<and> valid_ptr ex_fail 4104 \<and>
   mem ex_fail (4104 + 15) = mem ex_ac (4104 + 15) \<and>
   hdr_payload (mem ex_ac) 4096 \<le> hdr_payload (mem ex_fail) 4096 \<and>
   4104 + hdr_payload (mem ex_ac) 4096 < segment_end ex_ac \<and>
   hdr_allocated (mem ex_ac) (4104 + hdr_payload (mem ex_ac) 4096) = 0 \<and>
   ex_fail \<noteq> ex_ac"
proof -
  have v: "valid_ptr ex_ac 4104" by (simp add: valid_ptr_def ex_ac_fields)
  have a: "ALIGNMENT cfg8 = 2 ^ 3" "100 + ALIGNMENT cfg8 \<le> 2 ^ 64" by (simp_all add: cfg8_def)
  have t: "max MIN_PAYLOAD_SIZE ((100 + ALIGNMENT cfg8 - 1) div ALIGNMENT cfg8 * ALIGNMENT cfg8)
             = 104" by (simp add: cfg8_def)
  have e: "coalesce_right ex_ac (4104 - HEADER_SIZE) = ex_fail" by (simp add: ex_fail_def)
  have lt: "hdr_payload (mem (coalesce_right ex_ac (4104 - HEADER_SIZE))) (4104 - HEADER_SIZE)
      < max MIN_PAYLOAD_SIZE ((100 + ALIGNMENT cfg8 - 1) div ALIGNMENT cfg8 * ALIGNMENT cfg8)"
    unfolding e t by (simp add: ex_fail_fields)
  have m: "mymalloc cfg8 (coalesce_right ex_ac (4104 - HEADER_SIZE)) 100 = Some (NULL, ex_fail)"
    unfolding e by (rule ex_fail_fields)
  have n0: "(100 :: nat) \<noteq> 0" by simp
  have se: "segment_end ex_ac = 4168"
    unfolding ex_ac_def ex_abc_def ex_ab_def ex_a_def ex72_def by (simp add: run_defs)
  have nb: "4104 + hdr_payload (mem ex_ac) 4096 < segment_end ex_ac"
    "hdr_allocated (mem ex_ac) (4104 + hdr_payload (mem ex_ac) 4096) = 0"
    by (simp_all add: ex_ac_fields se)
  note t = C1_failed_realloc[OF ex_ac_state v n0 a lt m, unfolded e]
  have 1: "myrealloc cfg8 ex_ac 4104 100 = Some (NULL, ex_fail)" "heap_state cfg8 ex_fail"
    "valid_ptr ex_fail 4104" "hdr_payload (mem ex_ac) 4096 \<le> hdr_payload (mem ex_fail) 4096"
    using t by simp_all
  have "\<forall>i < hdr_payload (mem ex_ac) (4104 - HEADER_SIZE). mem ex_fail (4104 + i) = mem ex_ac (4104 + i)"
    using t by blast
  then have "\<forall>i < 16. mem ex_fail (4104 + i) = mem ex_ac (4104 + i)" by (simp add: ex_ac_fields)
  then have 2: "mem ex_fail (4104 + 15) = mem ex_ac (4104 + 15)" by (rule allE[of _ 15]) simp
  have "(ex_fail = ex_ac) =
      (\<not> (4104 + hdr_payload (mem ex_ac) (4104 - HEADER_SIZE) < segment_end ex_ac \<and>
          hdr_allocated (mem ex_ac) (4104 + hdr_payload (mem ex_ac) (4104 - HEADER_SIZE)) = 0))"
    using t by blast
  then have 3: "ex_fail \<noteq> ex_ac" using nb by simp
  show ?thesis using ex_ac_state v a lt m 1 2 3 nb by simp
qed

theorem C1_counterexample:
  "heap_state cfg8 ex_ac \<and> valid_ptr ex_ac 4104 \<and>
   myrealloc cfg8 ex_ac 4104 100 = Some (NULL, ex_fail) \<and>
   heap_blocks ex_ac = [4096, 4120, 4144] \<and> heap_blocks ex_fail = [4096, 4144] \<and>
   hdr_payload (mem ex_ac) 4096 = 16 \<and> hdr_payload (mem ex_fail) 4096 = 40 \<and>
   free_list_start ex_ac = 4120 \<and> free_list_start ex_fail = NULL \<and> ex_fail \<noteq> ex_ac"
proof -
  have v: "valid_ptr ex_ac 4104" by (simp add: valid_ptr_def ex_ac_fields)
  have r: "myrealloc cfg8 ex_ac 4104 100 = Some (NULL, ex_fail)"
    unfolding ex_fail_def ex_ac_def ex_abc_def ex_ab_def ex_a_def ex72_def
    by (simp add: run_defs)
  have "free_list_start ex_fail \<noteq> free_list_start ex_ac"
    by (simp add: ex_fail_fields ex_ac_fields)
  then have "ex_fail \<noteq> ex_ac" by auto
  then show ?thesis using ex_ac_state v r by (simp add: ex_ac_fields ex_fail_fields)
qed

lemma absorb_stop: "ys = [] \<or> fst (hd ys) \<notin> set fl \<Longrightarrow> absorb fl p ys = (p, ys, fl)"
  by (cases ys) auto

text \<open>
  C2 (as amended): for two allocated blocks of a heap state of which the second starts
  where the first ends, releasing the second and then the first leaves one free block at
  the address of the first.  Its payload size is the payload size of the first, plus the
  payload size the second had when it was released and had absorbed the free blocks that
  followed it, plus \<open>HEADER_SIZE\<close>; that is the sum of the two payload sizes plus
  \<open>HEADER_SIZE\<close> when the block after the second was allocated or the second ended at
  \<open>segment_end\<close>.  The free block is the head of the free list, it is in the list once,
  the second block is no block of the heap and no entry of the list any more, and no
  other entry of the list lies within the bytes of the free block.
\<close>

theorem C2_release_right_then_left:
  assumes "heap_state cfg s" and "valid_ptr s pa" and "valid_ptr s pb"
    and "pb = pa + hdr_payload (mem s) (pa - HEADER_SIZE) + HEADER_SIZE"
  shows "let s1 = myfree s pb; s2 = myfree s1 pa; a = pa - HEADER_SIZE; b = pb - HEADER_SIZE in
    heap_state cfg s2 \<and> a \<in> set (heap_blocks s2) \<and> b \<notin> set (heap_blocks s2) \<and>
    hdr_allocated (mem s2) a = 0 \<and>
    hdr_payload (mem s2) a = hdr_payload (mem s) a + hdr_payload (mem s1) b + HEADER_SIZE \<and>
    hdr_payload (mem s) b \<le> hdr_payload (mem s1) b \<and>
    (\<not> (pb + hdr_payload (mem s) b < segment_end s \<and>
        hdr_allocated (mem s) (pb + hdr_payload (mem s) b) = 0)
       \<longrightarrow> hdr_payload (mem s1) b = hdr_payload (mem s) b) \<and>
    free_list_start s2 = a \<and>
    (\<exists>fl. is_free_list (mem s2) (free_list_start s2) fl \<and> distinct fl \<and> a \<in> set fl \<and>
       b \<notin> set fl \<and> set fl \<inter> block_bytes s2 a = {a})"
proof -
  from heap_state_big[OF assms(1,2)] obtain xs a qa ys0 fl where
    pa: "pa = a + 8" and big: "big s (xs @ (a, qa) # ys0) fl" and afl: "a \<notin> set fl" by blast
  let ?bl = "xs @ (a, qa) # ys0"
  note lay = big_layout[OF big]
  have aq: "(a, qa) \<in> set ?bl" by simp
  have qa: "hdr_payload (mem s) a = qa" using layout_bounds(7)[OF lay aq] .
  from assms(3) big_valid_ptr[OF big] obtain b qb where
    pb: "pb = b + 8" and bq: "(b, qb) \<in> set ?bl" and bfl: "b \<notin> set fl" by blast
  have qb: "hdr_payload (mem s) b = qb" using layout_bounds(7)[OF lay bq] .
  have b: "b = a + qa + 8" using assms(4) pa pb qa by simp
  obtain ys where ys0: "ys0 = (b, qb) # ys"
  proof (cases ys0)
    case Nil
    from big_next_block(1)[OF big Nil] layout_bounds(6)[OF lay bq] b show ?thesis by simp
  next
    case (Cons cq ys)
    obtain c qc where cq: "cq = (c, qc)" by (cases cq)
    from big_next_block(2)[OF big Cons[unfolded cq]] b have c: "c = b" by simp
    have "(b, qc) \<in> set ?bl" using Cons cq c by simp
    from layout_bounds(7)[OF lay this] qb have "qc = qb" by simp
    with that Cons cq c show ?thesis by simp
  qed
  have big0: "big s ((xs @ [(a, qa)]) @ (b, qb) # ys) fl" using big ys0 by simp
  obtain qb' ys' fl' where ab: "absorb fl qb ys = (qb', ys', fl')"
    by (cases "absorb fl qb ys") auto
  from absorb_props[OF ab] obtain zs where
    fl': "set fl' \<subseteq> set fl" and qq: "qb \<le> qb'" and stop: "ys' = [] \<or> fst (hd ys') \<notin> set fl'"
    and zs: "ys = zs @ ys'" by blast
  let ?s1 = "myfree s pb" and ?s2 = "myfree (myfree s pb) pa"
  have big1: "big ?s1 (xs @ (a, qa) # (b, qb') # ys') (b # fl')"
    using myfree_big[OF big0 bfl ab] pb by simp
  have ab2: "absorb (b # fl') qa ((b, qb') # ys') = (qa + qb' + 8, ys', fl')"
    using absorb_stop[OF stop] by simp
  have afl1: "a \<notin> set (b # fl')" using afl fl' b by auto
  have big2: "big ?s2 (xs @ (a, qa + qb' + 8) # ys') (a # fl')"
    using myfree_big[OF big1 afl1 ab2] pa by simp
  have v1: "valid_ptr ?s1 pa" unfolding big_valid_ptr[OF big1] using pa afl1 by auto
  have hs: "heap_state cfg ?s2"
    using heap_state_step(2)[OF heap_state_step(2)[OF assms(1)], of pb pa] assms(3) v1 by simp
  have d: "distinct (map fst (xs @ (a, qa) # (b, qb) # zs @ ys'))"
    using big_distinct[OF big] ys0 zs by simp
  have hb: "heap_blocks ?s2 = map fst (xs @ (a, qa + qb' + 8) # ys')" using big_walk(1)[OF big2] .
  have 1: "a \<in> set (heap_blocks ?s2)" unfolding hb by simp
  have 2: "b \<notin> set (heap_blocks ?s2)" unfolding hb using d b by auto
  have 3: "hdr_allocated (mem ?s2) a = 0"
    using big_flag[OF big2, of a "qa + qb' + 8"] by simp
  have 4: "hdr_payload (mem ?s2) a = qa + qb' + 8"
    using layout_bounds(7)[OF big_layout[OF big2], of a "qa + qb' + 8"] by simp
  have 5: "hdr_payload (mem ?s1) b = qb'"
    using layout_bounds(7)[OF big_layout[OF big1], of b qb'] by simp
  have 6: "qb' = qb" if "\<not> (pb + qb < segment_end s \<and> hdr_allocated (mem s) (pb + qb) = 0)"
  proof (cases ys)
    case Nil
    then show ?thesis using ab by simp
  next
    case (Cons cq ys1)
    obtain c qc where cq: "cq = (c, qc)" by (cases cq)
    from big_next_block(2)[OF big0 Cons[unfolded cq]] pb
    have c: "c = pb + qb" "c < segment_end s" by auto
    have "(c, qc) \<in> set ?bl" using ys0 Cons cq by simp
    from big_flag[OF big this] that c have "c \<notin> set fl" by simp
    then show ?thesis using ab Cons cq by simp
  qed
  have 7: "free_list_start ?s2 = a" using big_flist[OF big2] by simp
  have 8: "is_free_list (mem ?s2) (free_list_start ?s2) (a # fl')" "distinct (a # fl')"
    using big_flist[OF big2] by (auto intro: seg_is_free_list)
  have 9: "b \<notin> set (a # fl')" using bfl fl' b by auto
  have 10: "set (a # fl') \<inter> block_bytes ?s2 a = {a}"
  proof -
    have "c = a" if "c \<in> set (a # fl')" "c \<in> block_bytes ?s2 a" for c
    proof (rule ccontr)
      assume ca: "c \<noteq> a"
      from big_fl_block[OF big2 that(1)] obtain qc where
        cq: "(c, qc) \<in> set (xs @ (a, qa + qb' + 8) # ys')" ..
      have "contig (segment_start ?s2) (segment_end ?s2) (xs @ (a, qa + qb' + 8) # ys')"
        using big_layout[OF big2] by (simp add: layout_def wf_blocks_def)
      from contig_sep[OF this cq _ ca, of "qa + qb' + 8"] that(2) 4
      show False by (auto simp: block_bytes_def)
    qed
    moreover have "a \<in> block_bytes ?s2 a" by (simp add: block_bytes_def)
    ultimately show ?thesis by auto
  qed
  have e: "pa - 8 = a" "pb - 8 = b" using pa pb by simp_all
  have ex: "\<exists>fl. is_free_list (mem ?s2) (free_list_start ?s2) fl \<and> distinct fl \<and> a \<in> set fl \<and>
       b \<notin> set fl \<and> set fl \<inter> block_bytes ?s2 a = {a}"
    using 8 9 10 by (intro exI[of _ "a # fl'"]) simp
  show ?thesis unfolding Let_def e qa qb 5
    using hs 1 2 3 4 qq 6 7 ex by simp
qed

theorem C2_release_right_then_left_witness:
  "heap_state cfg8 ex_abc \<and> valid_ptr ex_abc 4104 \<and> valid_ptr ex_abc 4128 \<and>
   (4128 :: nat) = 4104 + hdr_payload (mem ex_abc) (4104 - HEADER_SIZE) + HEADER_SIZE \<and>
   heap_state cfg8 (myfree (myfree ex_abc 4128) 4104) \<and>
   heap_blocks (myfree (myfree ex_abc 4128) 4104) = [4096, 4144] \<and>
   hdr_allocated (mem (myfree (myfree ex_abc 4128) 4104)) 4096 = 0 \<and>
   hdr_payload (mem (myfree (myfree ex_abc 4128) 4104)) 4096 = 16 + 16 + HEADER_SIZE \<and>
   free_list_start (myfree (myfree ex_abc 4128) 4104) = 4096 \<and>
   is_free_list (mem (myfree (myfree ex_abc 4128) 4104))
     (free_list_start (myfree (myfree ex_abc 4128) 4104)) [4096]"
proof -
  have v: "valid_ptr ex_abc 4104" "valid_ptr ex_abc 4128"
    by (simp_all add: valid_ptr_def ex_abc_blocks ex_abc_fields)
  have adj: "(4128 :: nat) = 4104 + hdr_payload (mem ex_abc) (4104 - HEADER_SIZE) + HEADER_SIZE"
    by (simp add: ex_abc_fields)
  have p1: "hdr_payload (mem (myfree ex_abc 4128)) 4120 = 16"
    unfolding ex_abc_def ex_ab_def ex_a_def ex72_def by (simp add: run_defs)
  from C2_release_right_then_left[OF ex_abc_state(3) v adj]
  have 1: "heap_state cfg8 (myfree (myfree ex_abc 4128) 4104)"
    "hdr_allocated (mem (myfree (myfree ex_abc 4128) 4104)) 4096 = 0"
    "hdr_payload (mem (myfree (myfree ex_abc 4128) 4104)) 4096 = 16 + 16 + HEADER_SIZE"
    "free_list_start (myfree (myfree ex_abc 4128) 4104) = 4096"
    by (simp_all add: Let_def ex_abc_fields p1)
  have 2: "heap_blocks (myfree (myfree ex_abc 4128) 4104) = [4096, 4144]"
    "is_free_list (mem (myfree (myfree ex_abc 4128) 4104))
       (free_list_start (myfree (myfree ex_abc 4128) 4104)) [4096]"
    unfolding heap_blocks_def ex_abc_def ex_ab_def ex_a_def ex72_def
    by (simp_all add: run_defs heap_walk.simps)
  show ?thesis using ex_abc_state(3) v adj 1 2 by simp
qed

theorem C2_counterexample:
  "heap_state cfg8 ex_abc \<and> valid_ptr ex_abc 4104 \<and> valid_ptr ex_abc 4128 \<and>
   heap_blocks ex_abc = [4096, 4120, 4144] \<and>
   hdr_payload (mem ex_abc) 4096 = 16 \<and> hdr_payload (mem ex_abc) 4120 = 16 \<and>
   heap_blocks (myfree (myfree ex_abc 4104) 4128) = [4096, 4120, 4144] \<and>
   hdr_allocated (mem (myfree (myfree ex_abc 4104) 4128)) 4096 = 0 \<and>
   hdr_allocated (mem (myfree (myfree ex_abc 4104) 4128)) 4120 = 0 \<and>
   hdr_payload (mem (myfree (myfree ex_abc 4104) 4128)) 4096 = 16 \<and>
   hdr_payload (mem (myfree (myfree ex_abc 4104) 4128)) 4120 = 16 \<and>
   is_free_list (mem (myfree (myfree ex_abc 4104) 4128))
     (free_list_start (myfree (myfree ex_abc 4104) 4128)) [4120, 4096] \<and>
   heap_state cfg8 ex_abf \<and> valid_ptr ex_abf 4104 \<and> valid_ptr ex_abf 4128 \<and>
   hdr_payload (mem ex_abf) 4096 = 16 \<and> hdr_payload (mem ex_abf) 4120 = 16 \<and>
   heap_blocks (myfree (myfree ex_abf 4128) 4104) = [4096] \<and>
   hdr_payload (mem (myfree (myfree ex_abf 4128) 4104)) 4096 = 64"
proof -
  have v: "valid_ptr ex_abc 4104" "valid_ptr ex_abc 4128" "valid_ptr ex_abc 4152"
    by (simp_all add: valid_ptr_def ex_abc_blocks ex_abc_fields)
  have 1: "heap_blocks (myfree (myfree ex_abc 4104) 4128) = [4096, 4120, 4144]"
    "hdr_allocated (mem (myfree (myfree ex_abc 4104) 4128)) 4096 = 0"
    "hdr_allocated (mem (myfree (myfree ex_abc 4104) 4128)) 4120 = 0"
    "hdr_payload (mem (myfree (myfree ex_abc 4104) 4128)) 4096 = 16"
    "hdr_payload (mem (myfree (myfree ex_abc 4104) 4128)) 4120 = 16"
    "is_free_list (mem (myfree (myfree ex_abc 4104) 4128))
       (free_list_start (myfree (myfree ex_abc 4104) 4128)) [4120, 4096]"
    unfolding heap_blocks_def ex_abc_def ex_ab_def ex_a_def ex72_def
    by (simp_all add: run_defs heap_walk.simps)
  have hs: "heap_state cfg8 ex_abf"
    unfolding ex_abf_def using heap_state_step(2)[OF ex_abc_state(3), of 4152] v by simp
  have 2: "heap_blocks ex_abf = [4096, 4120, 4144]" "hdr_allocated (mem ex_abf) 4096 = 1"
    "hdr_allocated (mem ex_abf) 4120 = 1"
    "hdr_payload (mem ex_abf) 4096 = 16" "hdr_payload (mem ex_abf) 4120 = 16"
    "heap_blocks (myfree (myfree ex_abf 4128) 4104) = [4096]"
    "hdr_payload (mem (myfree (myfree ex_abf 4128) 4104)) 4096 = 64"
    unfolding heap_blocks_def ex_abf_def ex_abc_def ex_ab_def ex_a_def ex72_def
    by (simp_all add: run_defs heap_walk.simps)
  have v2: "valid_ptr ex_abf 4104" "valid_ptr ex_abf 4128" by (simp_all add: valid_ptr_def 2)
  show ?thesis using ex_abc_state(3) v 1 hs v2 2 by (simp add: ex_abc_blocks ex_abc_fields)
qed

end
